theory Spec2Isabelle
  imports Complex_Main
begin

section \<open>The shopping cart of \<^verbatim>\<open>src/script.js\<close>\<close>

text \<open>
  The cart code of \<^verbatim>\<open>script.js\<close> keeps one module-level array \<^verbatim>\<open>cart\<close>, writes it
  to \<^verbatim>\<open>localStorage\<close> under the key \<^verbatim>\<open>vyndetta_cart\<close> and tells the user what
  happened through \<^verbatim>\<open>showNotification\<close>. The functions return nothing; everything they
  do is an effect on that page state, which the model passes explicitly.
\<close>

subsection \<open>Numbers\<close>

text \<open>
  A product's price is the result of \<^verbatim>\<open>parseFloat\<close> on the text of the page (line 343):
  a double, or \<^verbatim>\<open>NaN\<close>, or an infinity. A finite double is held as the rational number it
  is equal to. A \<open>Fin q\<close> whose \<open>q\<close> is no double stands for the double nearest to \<open>q\<close>,
  the one that \<^verbatim>\<open>parseFloat\<close> and \<^verbatim>\<open>JSON.parse\<close> make of a decimal text; the arithmetic
  reads its operands so (\<open>to_double\<close>). Ids (\<^verbatim>\<open>Date.now() + index\<close>) and quantities (1,
  then changed by adding integers) are integers.
\<close>

datatype jsnum = Fin rat | PInf | NInf | NaN

text \<open>
  The \<^verbatim>\<open>*\<close> and \<^verbatim>\<open>+\<close> of JavaScript are those of IEEE 754 binary64: the exact result,
  rounded to the nearest double, a tie going to the even significand. A double is
  \<open>m * 2 ^ e\<close> with \<open>m\<close> below \<open>2 ^ 53\<close> and \<open>e\<close> from \<open>-1074\<close> on (gradual underflow); a
  result that rounds to \<open>2 ^ 1024\<close> or more is an infinity. The two zeros are one value
  here: \<^verbatim>\<open>===\<close> does not tell them apart, and a sum that starts from \<open>0\<close>, as the total
  does, is never the negative zero.
\<close>

function bit_length :: "int \<Rightarrow> int" where
  "bit_length n = (if n \<le> 0 then 0 else 1 + bit_length (n div 2))"
  by pat_completeness auto
termination
  by (relation "measure nat") auto

declare bit_length.simps [simp del]

definition pow2 :: "int \<Rightarrow> rat" where
  "pow2 k = (if 0 \<le> k then 2 ^ nat k else 1 / 2 ^ nat (- k))"

text \<open>For a positive \<open>a\<close>, the \<open>k\<close> with \<open>2 ^ k \<le> a < 2 ^ (k + 1)\<close>.\<close>

definition floor_log2 :: "rat \<Rightarrow> int" where
  "floor_log2 a =
     (let k = bit_length (fst (quotient_of a)) - bit_length (snd (quotient_of a))
      in if pow2 k \<le> a then k else k - 1)"

definition round_half_even :: "rat \<Rightarrow> int" where
  "round_half_even x =
     (let f = \<lfloor>x\<rfloor>; r = x - of_int f
      in if r < 1 / 2 then f else if 1 / 2 < r then f + 1 else if even f then f else f + 1)"

definition round_double :: "rat \<Rightarrow> jsnum" where
  "round_double q =
     (if q = 0 then Fin 0
      else
        (let a = \<bar>q\<bar>;
             e = max (floor_log2 a - 52) (- 1074);
             r = of_int (round_half_even (a / pow2 e)) * pow2 e
         in if 2 ^ 1024 \<le> r then (if q < 0 then NInf else PInf)
            else Fin (if q < 0 then - r else r)))"

fun to_double :: "jsnum \<Rightarrow> jsnum" where
  "to_double (Fin q) = round_double q"
| "to_double x = x"

fun js_neg :: "jsnum \<Rightarrow> jsnum" where
  "js_neg (Fin a) = Fin (- a)"
| "js_neg PInf = NInf"
| "js_neg NInf = PInf"
| "js_neg NaN = NaN"

fun add_doubles :: "jsnum \<Rightarrow> jsnum \<Rightarrow> jsnum" where
  "add_doubles NaN _ = NaN"
| "add_doubles _ NaN = NaN"
| "add_doubles PInf NInf = NaN"
| "add_doubles NInf PInf = NaN"
| "add_doubles PInf _ = PInf"
| "add_doubles _ PInf = PInf"
| "add_doubles NInf _ = NInf"
| "add_doubles _ NInf = NInf"
| "add_doubles (Fin a) (Fin b) = round_double (a + b)"

fun mul_doubles :: "jsnum \<Rightarrow> jsnum \<Rightarrow> jsnum" where
  "mul_doubles NaN _ = NaN"
| "mul_doubles _ NaN = NaN"
| "mul_doubles (Fin a) (Fin b) = round_double (a * b)"
| "mul_doubles (Fin a) b = (if a = 0 then NaN else if 0 < a then b else js_neg b)"
| "mul_doubles a (Fin b) = (if b = 0 then NaN else if 0 < b then a else js_neg a)"
| "mul_doubles PInf b = b"
| "mul_doubles NInf b = js_neg b"

definition js_add :: "jsnum \<Rightarrow> jsnum \<Rightarrow> jsnum" where
  "js_add x y = add_doubles (to_double x) (to_double y)"

definition js_mul :: "jsnum \<Rightarrow> jsnum \<Rightarrow> jsnum" where
  "js_mul x y = mul_doubles (to_double x) (to_double y)"

subsection \<open>Products, cart lines and the page state\<close>

text \<open>
  The object literal of line 347 is a product; the one pushed at line 128 is a cart line,
  a product with a quantity. The fields \<^verbatim>\<open>id\<close> and \<^verbatim>\<open>image\<close> carry a prime because
  \<open>id\<close> and \<open>image\<close> are constants of HOL.
\<close>

record product =
  id' :: int
  title :: string
  price :: jsnum
  image' :: string

record item = product +
  quantity :: int

text \<open>
  The state: the array \<^verbatim>\<open>cart\<close> (line 96), the browser's \<^verbatim>\<open>localStorage\<close>, the
  messages handed to \<^verbatim>\<open>showNotification\<close> so far (oldest first) and whether
  \<^verbatim>\<open>openCart\<close> has made the side panel active. \<^verbatim>\<open>updateCartDisplay\<close> and
  \<^verbatim>\<open>updateCartBadge\<close> only read \<^verbatim>\<open>cart\<close> and rewrite nodes of the document; the
  document is not part of the state, so calls to them leave it as it is.
\<close>

record page =
  cart :: "item list"
  localStorage :: "string \<rightharpoonup> string"
  notifications :: "string list"
  cart_open :: bool

definition initial :: page where
  "initial = \<lparr>cart = [], localStorage = Map.empty, notifications = [], cart_open = False\<rparr>"

definition showNotification :: "string \<Rightarrow> page \<Rightarrow> page" where
  "showNotification message s = s\<lparr>notifications := notifications s @ [message]\<rparr>"

definition openCart :: "page \<Rightarrow> page" where
  "openCart s = s\<lparr>cart_open := True\<rparr>"

definition closeCart :: "page \<Rightarrow> page" where
  "closeCart s = s\<lparr>cart_open := False\<rparr>"

subsection \<open>The platform: JSON text\<close>

text \<open>
  \<^verbatim>\<open>JSON.stringify\<close> and \<^verbatim>\<open>JSON.parse\<close> belong to the JavaScript platform, not to the
  repository. They are modelled on the values JSON text can denote. A string is a list of
  8-bit characters; a finite number is written in positional decimal notation (the
  platform switches to exponent notation from \<^verbatim>\<open>1e21\<close> on and below \<^verbatim>\<open>1e-6\<close>, which
  denotes the same number).
\<close>

datatype jsvalue =
    JNull
  | JBool bool
  | JNum jsnum
  | JStr string
  | JArr "jsvalue list"
  | JObj "(string \<times> jsvalue) list"

fun digits :: "nat \<Rightarrow> string" where
  "digits n =
     (if n < 10 then [char_of (48 + n)] else digits (n div 10) @ [char_of (48 + n mod 10)])"

declare digits.simps [simp del]

text \<open>
  The number of decimal places of a rational: the least \<open>k\<close> with \<open>q * 10 ^ k\<close> an
  integer. Every JavaScript number has one; a rational that has none is the value of no
  JavaScript number and is given \<open>0\<close>.
\<close>

definition decimal_places :: "rat \<Rightarrow> nat" where
  "decimal_places q =
     (let d = snd (quotient_of q)
      in case find (\<lambda>k. d dvd 10 ^ k) [0..<nat d] of Some k \<Rightarrow> k | None \<Rightarrow> 0)"

definition number_text :: "rat \<Rightarrow> string" where
  "number_text q =
     (let k = decimal_places q;
          m = nat \<lfloor>\<bar>q\<bar> * 10 ^ k\<rfloor>;
          p = replicate (Suc k - length (digits m)) (CHR ''0'') @ digits m
      in (if q < 0 then [CHR ''-''] else []) @
         (if k = 0 then p else take (length p - k) p @ [CHR ''.''] @ drop (length p - k) p))"

definition hex_digit :: "nat \<Rightarrow> char" where
  "hex_digit n = (if n < 10 then char_of (48 + n) else char_of (87 + n))"

definition escape_char :: "char \<Rightarrow> string" where
  "escape_char c =
     (if c = CHR 0x22 then [CHR 0x5C, CHR 0x22]
      else if c = CHR 0x5C then [CHR 0x5C, CHR 0x5C]
      else if c = CHR 0x08 then [CHR 0x5C, CHR ''b'']
      else if c = CHR 0x09 then [CHR 0x5C, CHR ''t'']
      else if c = CHR 0x0A then [CHR 0x5C, CHR ''n'']
      else if c = CHR 0x0C then [CHR 0x5C, CHR ''f'']
      else if c = CHR 0x0D then [CHR 0x5C, CHR ''r'']
      else if (of_char c :: nat) < 32
        then [CHR 0x5C, CHR ''u'', CHR ''0'', CHR ''0'',
              hex_digit (of_char c div 16), hex_digit (of_char c mod 16)]
      else [c])"

definition quote :: "string \<Rightarrow> string" where
  "quote s = CHR 0x22 # concat (map escape_char s) @ [CHR 0x22]"

fun JSON_stringify :: "jsvalue \<Rightarrow> string"
  and stringify_elements :: "jsvalue list \<Rightarrow> string"
  and stringify_members :: "(string \<times> jsvalue) list \<Rightarrow> string" where
  "JSON_stringify JNull = ''null''"
| "JSON_stringify (JBool b) = (if b then ''true'' else ''false'')"
| "JSON_stringify (JNum (Fin q)) = number_text q"
| "JSON_stringify (JNum _) = ''null''"
| "JSON_stringify (JStr s) = quote s"
| "JSON_stringify (JArr vs) = ''['' @ stringify_elements vs @ '']''"
| "JSON_stringify (JObj kvs) = ''{'' @ stringify_members kvs @ ''}''"
| "stringify_elements [] = []"
| "stringify_elements [v] = JSON_stringify v"
| "stringify_elements (v # w # vs) = JSON_stringify v @ '','' @ stringify_elements (w # vs)"
| "stringify_members [] = []"
| "stringify_members [(k, v)] = quote k @ '':'' @ JSON_stringify v"
| "stringify_members ((k, v) # kv # kvs) =
     quote k @ '':'' @ JSON_stringify v @ '','' @ stringify_members (kv # kvs)"

text \<open>
  \<^verbatim>\<open>JSON.parse\<close> either gives a value or throws \<^verbatim>\<open>SyntaxError\<close> (\<open>Invalid\<close>). The
  third result, \<open>Outside\<close>, marks what this model cannot say: a \<^verbatim>\<open>\u\<close> escape for a
  character beyond the 8-bit ones, or the recursion bound of the parser reached. The
  parser is a recursive descent over the grammar of JSON; its first argument bounds the
  depth of the recursion, and \<open>JSON_parse\<close> starts it with two units for each character
  of the text, which no text uses up (\<open>JSON_parse_fuel\<close> below).
\<close>

datatype 'a parsed = Parsed 'a | Invalid | Outside

definition is_ws :: "char \<Rightarrow> bool" where
  "is_ws c \<longleftrightarrow> c = CHR '' '' \<or> c = CHR 0x09 \<or> c = CHR 0x0A \<or> c = CHR 0x0D"

definition skip_ws :: "string \<Rightarrow> string" where
  "skip_ws = dropWhile is_ws"

definition is_digit :: "char \<Rightarrow> bool" where
  "is_digit c \<longleftrightarrow> 48 \<le> (of_char c :: nat) \<and> (of_char c :: nat) \<le> 57"

definition digits_value :: "string \<Rightarrow> nat" where
  "digits_value ds = foldl (\<lambda>a c. 10 * a + (of_char c - 48)) 0 ds"

definition hex_value :: "char \<Rightarrow> nat option" where
  "hex_value c =
     (let n = (of_char c :: nat)
      in if 48 \<le> n \<and> n \<le> 57 then Some (n - 48)
         else if 97 \<le> n \<and> n \<le> 102 then Some (n - 87)
         else if 65 \<le> n \<and> n \<le> 70 then Some (n - 55)
         else None)"

definition unescape :: "char \<Rightarrow> char option" where
  "unescape e =
     (if e = CHR 0x22 \<or> e = CHR 0x5C \<or> e = CHR ''/'' then Some e
      else if e = CHR ''b'' then Some (CHR 0x08)
      else if e = CHR ''f'' then Some (CHR 0x0C)
      else if e = CHR ''n'' then Some (CHR 0x0A)
      else if e = CHR ''r'' then Some (CHR 0x0D)
      else if e = CHR ''t'' then Some (CHR 0x09)
      else None)"

definition parsed_cons :: "char \<Rightarrow> (string \<times> string) parsed \<Rightarrow> (string \<times> string) parsed" where
  "parsed_cons c r = (case r of Parsed (s, rest) \<Rightarrow> Parsed (c # s, rest) | Invalid \<Rightarrow> Invalid | Outside \<Rightarrow> Outside)"

fun parse_chars :: "string \<Rightarrow> (string \<times> string) parsed" where
  "parse_chars [] = Invalid"
| "parse_chars (c # cs) =
     (if c = CHR 0x22 then Parsed ([], cs)
      else if c = CHR 0x5C then
        (case cs of
           [] \<Rightarrow> Invalid
         | e # cs1 \<Rightarrow>
             if e = CHR ''u'' then
               (case cs1 of
                  h1 # h2 # h3 # h4 # cs2 \<Rightarrow>
                    (case (hex_value h1, hex_value h2, hex_value h3, hex_value h4) of
                       (Some a, Some b, Some c, Some d) \<Rightarrow>
                         if a = 0 \<and> b = 0 then parsed_cons (char_of (16 * c + d)) (parse_chars cs2)
                         else Outside
                     | _ \<Rightarrow> Invalid)
                | _ \<Rightarrow> Invalid)
             else
               (case unescape e of
                  Some ch \<Rightarrow> parsed_cons ch (parse_chars cs1)
                | None \<Rightarrow> Invalid))
      else if (of_char c :: nat) < 32 then Invalid
      else parsed_cons c (parse_chars cs))"

definition parse_number :: "string \<Rightarrow> (rat \<times> string) option" where
  "parse_number cs =
     (let negative = (cs \<noteq> [] \<and> hd cs = CHR ''-'');
          cs1 = (if negative then tl cs else cs);
          ds = takeWhile is_digit cs1;
          cs2 = dropWhile is_digit cs1;
          fraction = (cs2 \<noteq> [] \<and> hd cs2 = CHR ''.'');
          fs = (if fraction then takeWhile is_digit (tl cs2) else []);
          cs3 = (if fraction then dropWhile is_digit (tl cs2) else cs2);
          exponent = (cs3 \<noteq> [] \<and> (hd cs3 = CHR ''e'' \<or> hd cs3 = CHR ''E''));
          cs4 = (if exponent then tl cs3 else cs3);
          esign = (cs4 \<noteq> [] \<and> (hd cs4 = CHR ''+'' \<or> hd cs4 = CHR ''-''));
          cs5 = (if exponent \<and> esign then tl cs4 else cs4);
          es = (if exponent then takeWhile is_digit cs5 else []);
          cs6 = (if exponent then dropWhile is_digit cs5 else cs5);
          mantissa = of_nat (digits_value ds) + of_nat (digits_value fs) / 10 ^ length fs;
          scaled = (if exponent \<and> esign \<and> hd cs4 = CHR ''-''
                    then mantissa / 10 ^ digits_value es else mantissa * 10 ^ digits_value es)
      in if ds = [] \<or> (1 < length ds \<and> hd ds = CHR ''0'') \<or> (fraction \<and> fs = [])
            \<or> (exponent \<and> es = [])
         then None
         else Some (if negative then - scaled else scaled, cs6))"

fun parse_value :: "nat \<Rightarrow> string \<Rightarrow> (jsvalue \<times> string) parsed"
  and parse_elements :: "nat \<Rightarrow> string \<Rightarrow> (jsvalue list \<times> string) parsed"
  and parse_members :: "nat \<Rightarrow> string \<Rightarrow> ((string \<times> jsvalue) list \<times> string) parsed" where
  "parse_value 0 cs = Outside"
| "parse_value (Suc n) cs =
     (case skip_ws cs of
        [] \<Rightarrow> Invalid
      | c # r \<Rightarrow>
          if c = CHR ''['' then
            (if skip_ws r \<noteq> [] \<and> hd (skip_ws r) = CHR '']'' then Parsed (JArr [], tl (skip_ws r))
             else case parse_elements n r of
                    Parsed (vs, r1) \<Rightarrow> Parsed (JArr vs, r1)
                  | Invalid \<Rightarrow> Invalid | Outside \<Rightarrow> Outside)
          else if c = CHR ''{'' then
            (if skip_ws r \<noteq> [] \<and> hd (skip_ws r) = CHR ''}'' then Parsed (JObj [], tl (skip_ws r))
             else case parse_members n r of
                    Parsed (kvs, r1) \<Rightarrow> Parsed (JObj kvs, r1)
                  | Invalid \<Rightarrow> Invalid | Outside \<Rightarrow> Outside)
          else if c = CHR 0x22 then
            (case parse_chars r of
               Parsed (s, r1) \<Rightarrow> Parsed (JStr s, r1)
             | Invalid \<Rightarrow> Invalid | Outside \<Rightarrow> Outside)
          else if c = CHR ''-'' \<or> is_digit c then
            (case parse_number (c # r) of
               Some (q, r1) \<Rightarrow> Parsed (JNum (Fin q), r1)
             | None \<Rightarrow> Invalid)
          else if take 4 (c # r) = ''true'' then Parsed (JBool True, drop 4 (c # r))
          else if take 5 (c # r) = ''false'' then Parsed (JBool False, drop 5 (c # r))
          else if take 4 (c # r) = ''null'' then Parsed (JNull, drop 4 (c # r))
          else Invalid)"
| "parse_elements 0 cs = Outside"
| "parse_elements (Suc n) cs =
     (case parse_value n cs of
        Parsed (v, r) \<Rightarrow>
          (case skip_ws r of
             [] \<Rightarrow> Invalid
           | c # r1 \<Rightarrow>
               if c = CHR '']'' then Parsed ([v], r1)
               else if c = CHR '','' then
                 (case parse_elements n r1 of
                    Parsed (vs, r2) \<Rightarrow> Parsed (v # vs, r2)
                  | Invalid \<Rightarrow> Invalid | Outside \<Rightarrow> Outside)
               else Invalid)
      | Invalid \<Rightarrow> Invalid | Outside \<Rightarrow> Outside)"
| "parse_members 0 cs = Outside"
| "parse_members (Suc n) cs =
     (case skip_ws cs of
        [] \<Rightarrow> Invalid
      | q # r \<Rightarrow>
          if q \<noteq> CHR 0x22 then Invalid
          else
            (case parse_chars r of
               Parsed (k, r1) \<Rightarrow>
                 (case skip_ws r1 of
                    [] \<Rightarrow> Invalid
                  | c # r2 \<Rightarrow>
                      if c \<noteq> CHR '':'' then Invalid
                      else
                        (case parse_value n r2 of
                           Parsed (v, r3) \<Rightarrow>
                             (case skip_ws r3 of
                                [] \<Rightarrow> Invalid
                              | d # r4 \<Rightarrow>
                                  if d = CHR ''}'' then Parsed ([(k, v)], r4)
                                  else if d = CHR '','' then
                                    (case parse_members n r4 of
                                       Parsed (kvs, r5) \<Rightarrow> Parsed ((k, v) # kvs, r5)
                                     | Invalid \<Rightarrow> Invalid | Outside \<Rightarrow> Outside)
                                  else Invalid)
                         | Invalid \<Rightarrow> Invalid | Outside \<Rightarrow> Outside))
             | Invalid \<Rightarrow> Invalid | Outside \<Rightarrow> Outside))"

definition JSON_parse :: "string \<Rightarrow> jsvalue parsed" where
  "JSON_parse text =
     (case parse_value (2 * length text + 2) text of
        Parsed (v, r) \<Rightarrow> if skip_ws r = [] then Parsed v else Invalid
      | Invalid \<Rightarrow> Invalid | Outside \<Rightarrow> Outside)"

subsection \<open>The cart as a JavaScript value\<close>

text \<open>A cart line and the cart as the values \<^verbatim>\<open>JSON.stringify\<close> is given.\<close>

definition item_value :: "item \<Rightarrow> jsvalue" where
  "item_value i =
     JObj [(''id'', JNum (Fin (of_int (id' i)))),
           (''title'', JStr (title i)),
           (''price'', JNum (price i)),
           (''image'', JStr (image' i)),
           (''quantity'', JNum (Fin (of_int (quantity i))))]"

definition cart_value :: "item list \<Rightarrow> jsvalue" where
  "cart_value c = JArr (map item_value c)"

text \<open>
  The array read back by \<^verbatim>\<open>JSON.parse\<close> is a cart of this model when each element is an
  object with exactly the five fields of a cart line, \<^verbatim>\<open>id\<close> and \<^verbatim>\<open>quantity\<close> integers,
  \<^verbatim>\<open>title\<close> and \<^verbatim>\<open>image\<close> strings and \<^verbatim>\<open>price\<close> a number. Of a key written twice the
  last value counts, as in JavaScript.
\<close>

definition integer_of :: "jsvalue \<Rightarrow> int option" where
  "integer_of v = (case v of JNum (Fin q) \<Rightarrow> if of_int \<lfloor>q\<rfloor> = q then Some \<lfloor>q\<rfloor> else None | _ \<Rightarrow> None)"

definition number_of :: "jsvalue \<Rightarrow> jsnum option" where
  "number_of v = (case v of JNum x \<Rightarrow> Some x | _ \<Rightarrow> None)"

definition string_of :: "jsvalue \<Rightarrow> string option" where
  "string_of v = (case v of JStr x \<Rightarrow> Some x | _ \<Rightarrow> None)"

definition item_of_value :: "jsvalue \<Rightarrow> item option" where
  "item_of_value v =
     (case v of
        JObj kvs \<Rightarrow>
          (let field = map_of (rev kvs)
           in if set (map fst kvs) = {''id'', ''title'', ''price'', ''image'', ''quantity''}
              then (case (Option.bind (field ''id'') integer_of,
                          Option.bind (field ''title'') string_of,
                          Option.bind (field ''price'') number_of,
                          Option.bind (field ''image'') string_of,
                          Option.bind (field ''quantity'') integer_of) of
                      (Some i, Some t, Some p, Some im, Some q) \<Rightarrow>
                        Some \<lparr>id' = i, title = t, price = p, image' = im, quantity = q\<rparr>
                    | _ \<Rightarrow> None)
              else None)
      | _ \<Rightarrow> None)"

subsection \<open>Loading and saving\<close>

text \<open>
  \<^verbatim>\<open>loadCart\<close> has no \<^verbatim>\<open>try\<close>: an exception of \<^verbatim>\<open>JSON.parse\<close> leaves the function. A
  stored text that is absent or empty is falsy and skips the assignment. When the text
  parses to a value that is not an array, \<^verbatim>\<open>updateCartBadge\<close> calls \<^verbatim>\<open>cart.reduce\<close>
  on it through \<^verbatim>\<open>getTotalItems\<close>, a \<^verbatim>\<open>TypeError\<close>. An array that is not a cart of this
  model is \<open>Untyped\<close>: what the code does with it is not modelled.
\<close>

datatype js_error = SyntaxError | TypeError

datatype 'a outcome = Returns 'a | Throws js_error | Untyped

definition loadCart :: "page \<Rightarrow> page outcome" where
  "loadCart s =
     (case localStorage s ''vyndetta_cart'' of
        None \<Rightarrow> Returns s
      | Some savedCart \<Rightarrow>
          if savedCart = [] then Returns s
          else
            (case JSON_parse savedCart of
               Invalid \<Rightarrow> Throws SyntaxError
             | Outside \<Rightarrow> Untyped
             | Parsed v \<Rightarrow>
                 (case v of
                    JArr vs \<Rightarrow>
                      (if list_all (\<lambda>x. item_of_value x \<noteq> None) vs
                       then Returns (s\<lparr>cart := map (\<lambda>x. the (item_of_value x)) vs\<rparr>)
                       else Untyped)
                  | _ \<Rightarrow> Throws TypeError)))"

definition saveCart :: "page \<Rightarrow> page" where
  "saveCart s =
     s\<lparr>localStorage := (localStorage s)(''vyndetta_cart'' \<mapsto> JSON_stringify (cart_value (cart s)))\<rparr>"

subsection \<open>The three operations that change the cart\<close>

text \<open>
  \<^verbatim>\<open>cart.find(...)\<close> returns a reference to the first element that matches, and
  the assignment \<^verbatim>\<open>existingItem.quantity += 1\<close> changes that element where it
  stands in the array. No two slots of the array hold the same object (each is created
  by the literal of line 128 or by \<^verbatim>\<open>JSON.parse\<close>), so the reference is the index of
  the first match and the assignment an update of that slot.
\<close>

fun find_index :: "('a \<Rightarrow> bool) \<Rightarrow> 'a list \<Rightarrow> nat option" where
  "find_index P [] = None"
| "find_index P (x # xs) = (if P x then Some 0 else map_option Suc (find_index P xs))"

definition addToCart :: "product \<Rightarrow> page \<Rightarrow> page" where
  "addToCart product s =
     (let s1 =
        (case find_index (\<lambda>item. id' item = id' product) (cart s) of
           Some existingItem \<Rightarrow>
             showNotification ''Quantity updated in cart!''
               (s\<lparr>cart := (cart s)[existingItem :=
                    (cart s ! existingItem)\<lparr>quantity := quantity (cart s ! existingItem) + 1\<rparr>]\<rparr>)
         | None \<Rightarrow>
             showNotification ''Added to cart!''
               (s\<lparr>cart := cart s @
                    [\<lparr>id' = id' product, title = title product, price = price product,
                      image' = image' product, quantity = 1\<rparr>]\<rparr>))
      in openCart (saveCart s1))"

definition removeFromCart :: "int \<Rightarrow> page \<Rightarrow> page" where
  "removeFromCart productId s =
     showNotification ''Item removed from cart''
       (saveCart (s\<lparr>cart := filter (\<lambda>item. id' item \<noteq> productId) (cart s)\<rparr>))"

definition updateQuantity :: "int \<Rightarrow> int \<Rightarrow> page \<Rightarrow> page" where
  "updateQuantity productId change s =
     (case find_index (\<lambda>item. id' item = productId) (cart s) of
        Some i \<Rightarrow>
          (let s1 = s\<lparr>cart := (cart s)[i := (cart s ! i)\<lparr>quantity := quantity (cart s ! i) + change\<rparr>]\<rparr>
           in if quantity (cart s1 ! i) \<le> 0 then removeFromCart productId s1 else saveCart s1)
      | None \<Rightarrow> s)"

subsection \<open>The derived values\<close>


definition getTotalItems :: "page \<Rightarrow> int" where
  "getTotalItems s = foldl (\<lambda>total item. total + quantity item) 0 (cart s)"

subsection \<open>The vocabulary of the specification\<close>



definition representable :: "rat \<Rightarrow> bool" where
  "representable q \<longleftrightarrow> round_double q = Fin q"




definition is_decimal :: "rat \<Rightarrow> bool" where
  "is_decimal q \<longleftrightarrow> of_int \<lfloor>q * 10 ^ decimal_places q\<rfloor> = q * 10 ^ decimal_places q"

text \<open>
  A number that JSON text can carry: finite, with a finite decimal expansion (as every
  finite JavaScript number has). \<open>ends_number\<close> says that a text does not continue a
  number written before it.
\<close>

fun stored_number :: "jsnum \<Rightarrow> bool" where
  "stored_number (Fin q) = is_decimal q"
| "stored_number _ = False"

definition ends_number :: "string \<Rightarrow> bool" where
  "ends_number rest \<longleftrightarrow>
     rest = [] \<or> (\<not> is_digit (hd rest) \<and> hd rest \<noteq> CHR ''.'' \<and> hd rest \<noteq> CHR ''e'' \<and> hd rest \<noteq> CHR ''E'')"

text \<open>The invariant of the cart, and the pages that the three operations reach from an empty cart.\<close>

definition cart_invariant :: "item list \<Rightarrow> bool" where
  "cart_invariant c \<longleftrightarrow> distinct (map id' c) \<and> (\<forall>l\<in>set c. 1 \<le> quantity l)"

inductive reachable :: "page \<Rightarrow> bool" where
  start: "cart s = [] \<Longrightarrow> reachable s"
| add: "reachable s \<Longrightarrow> reachable (addToCart product s)"
| remove: "reachable s \<Longrightarrow> reachable (removeFromCart productId s)"
| update: "reachable s \<Longrightarrow> reachable (updateQuantity productId change s)"

text \<open>A sequence of \<^verbatim>\<open>addToCart\<close> calls, first product first.\<close>

fun add_all :: "product list \<Rightarrow> page \<Rightarrow> page" where
  "add_all [] s = s"
| "add_all (p # ps) s = add_all ps (addToCart p s)"

subsection \<open>Scenes\<close>

text \<open>
  The products and lines of the scenarios of the specification (section 8), and a page
  with a given cart, nothing stored and nothing shown.
\<close>

definition product_A :: product where
  "product_A = \<lparr>id' = 1, title = ''A'', price = Fin 10, image' = ''a.png''\<rparr>"

definition product_B :: product where
  "product_B = \<lparr>id' = 2, title = ''B'', price = Fin (15 / 2), image' = ''b.png''\<rparr>"

definition line_A :: "int \<Rightarrow> item" where
  "line_A n = \<lparr>id' = 1, title = ''A'', price = Fin 10, image' = ''a.png'', quantity = n\<rparr>"

definition line_B :: "int \<Rightarrow> item" where
  "line_B n = \<lparr>id' = 2, title = ''B'', price = Fin (15 / 2), image' = ''b.png'', quantity = n\<rparr>"

definition product_N :: product where
  "product_N = \<lparr>id' = 3, title = ''C'', price = NaN, image' = ''c.png''\<rparr>"

definition line_N :: item where
  "line_N = \<lparr>id' = 3, title = ''C'', price = NaN, image' = ''c.png'', quantity = 1\<rparr>"

definition line_T :: "int \<Rightarrow> item" where
  "line_T n = \<lparr>id' = 4, title = ''T'', price = Fin (3602879701896397 / 36028797018963968),
              image' = ''t.png'', quantity = n\<rparr>"

definition page_of :: "item list \<Rightarrow> page" where
  "page_of c = \<lparr>cart = c, localStorage = Map.empty, notifications = [], cart_open = False\<rparr>"


section \<open>Properties\<close>

lemmas scene = product_A_def product_B_def product_N_def line_A_def line_B_def line_N_def
  line_T_def page_of_def

lemmas run = addToCart_def removeFromCart_def updateQuantity_def saveCart_def
  showNotification_def openCart_def Let_def

subsection \<open>Finding a line\<close>

lemma find_index_None: "find_index P xs = None \<longleftrightarrow> (\<forall>x\<in>set xs. \<not> P x)"
  by (induction xs) auto

lemma find_index_Some:
  "find_index P xs = Some i \<Longrightarrow> i < length xs \<and> P (xs ! i) \<and> (\<forall>j<i. \<not> P (xs ! j))"
proof (induction xs arbitrary: i)
  case Nil
  then show ?case by simp
next
  case (Cons x xs)
  show ?case
  proof (cases "P x")
    case True
    with Cons.prems show ?thesis by simp
  next
    case False
    with Cons.prems obtain k where k: "find_index P xs = Some k" "i = Suc k"
      by auto
    from Cons.IH [OF k(1)] False k(2) show ?thesis
      by (auto simp: nth_Cons split: nat.splits)
  qed
qed

lemma find_index_present:
  "\<exists>x\<in>set xs. P x \<Longrightarrow> \<exists>i. find_index P xs = Some i"
  using find_index_None [of P xs] by (cases "find_index P xs") auto

lemma cart_saveCart [simp]: "cart (saveCart s) = cart s"
  and notifications_saveCart [simp]: "notifications (saveCart s) = notifications s"
  and cart_open_saveCart [simp]: "cart_open (saveCart s) = cart_open s"
  by (simp_all add: saveCart_def)

lemma cart_showNotification [simp]: "cart (showNotification m s) = cart s"
  and notifications_showNotification [simp]:
    "notifications (showNotification m s) = notifications s @ [m]"
  and localStorage_showNotification [simp]:
    "localStorage (showNotification m s) = localStorage s"
  by (simp_all add: showNotification_def)

lemma cart_openCart [simp]: "cart (openCart s) = cart s"
  and notifications_openCart [simp]: "notifications (openCart s) = notifications s"
  and localStorage_openCart [simp]: "localStorage (openCart s) = localStorage s"
  by (simp_all add: openCart_def)

lemma cart_addToCart_existing:
  "find_index (\<lambda>item. id' item = id' product) (cart s) = Some i \<Longrightarrow>
   cart (addToCart product s) = (cart s)[i := (cart s ! i)\<lparr>quantity := quantity (cart s ! i) + 1\<rparr>]"
  by (simp add: addToCart_def)

lemma cart_addToCart_new:
  "find_index (\<lambda>item. id' item = id' product) (cart s) = None \<Longrightarrow>
   cart (addToCart product s) = cart s @
     [\<lparr>id' = id' product, title = title product, price = price product,
       image' = image' product, quantity = 1\<rparr>]"
  by (simp add: addToCart_def)

lemma notifications_addToCart:
  "notifications (addToCart product s) = notifications s @
     [case find_index (\<lambda>item. id' item = id' product) (cart s) of
        Some _ \<Rightarrow> ''Quantity updated in cart!'' | None \<Rightarrow> ''Added to cart!'']"
  by (simp add: addToCart_def split: option.splits)

lemma cart_removeFromCart [simp]:
  "cart (removeFromCart productId s) = filter (\<lambda>item. id' item \<noteq> productId) (cart s)"
  by (simp add: removeFromCart_def)

lemma notifications_removeFromCart [simp]:
  "notifications (removeFromCart productId s) = notifications s @ [''Item removed from cart'']"
  by (simp add: removeFromCart_def)

lemma filter_update_same_id:
  assumes "i < length c" "id' (c ! i) = p"
  shows "filter (\<lambda>item. id' item \<noteq> p) (c[i := (c ! i)\<lparr>quantity := q\<rparr>]) =
         filter (\<lambda>item. id' item \<noteq> p) c"
  using assms
proof (induction c arbitrary: i)
  case Nil
  then show ?case by simp
next
  case (Cons x c)
  then show ?case by (cases i) auto
qed

lemma updateQuantity_absent:
  "find_index (\<lambda>item. id' item = productId) (cart s) = None \<Longrightarrow>
   updateQuantity productId change s = s"
  by (simp add: updateQuantity_def)

lemma updateQuantity_remove:
  assumes "find_index (\<lambda>item. id' item = productId) (cart s) = Some i"
    and "quantity (cart s ! i) + change \<le> 0"
  shows "updateQuantity productId change s = removeFromCart productId s"
proof -
  from find_index_Some [OF assms(1)] have i: "i < length (cart s)" "id' (cart s ! i) = productId"
    by simp_all
  show ?thesis
    using assms i filter_update_same_id [OF i, of "quantity (cart s ! i) + change"]
    by (simp add: updateQuantity_def Let_def removeFromCart_def saveCart_def showNotification_def)
qed

lemma updateQuantity_set:
  assumes "find_index (\<lambda>item. id' item = productId) (cart s) = Some i"
    and "0 < quantity (cart s ! i) + change"
  shows "updateQuantity productId change s =
         saveCart (s\<lparr>cart := (cart s)[i := (cart s ! i)\<lparr>quantity := quantity (cart s ! i) + change\<rparr>]\<rparr>)"
proof -
  from find_index_Some [OF assms(1)] have i: "i < length (cart s)" by simp
  show ?thesis using assms i by (simp add: updateQuantity_def Let_def)
qed

subsection \<open>Adding, removing, changing a quantity\<close>

text \<open>
  Claim C2. \<^verbatim>\<open>addToCart\<close> on a product whose id is in the cart adds exactly 1 to the
  quantity of the first line with that id and shows \<^verbatim>\<open>Quantity updated in cart!\<close> (the
  specification's \<^verbatim>\<open>QuantityUpdated\<close>); on a product whose id is not in the cart it appends
  a line with the product's fields and quantity 1 at the end and shows
  \<^verbatim>\<open>Added to cart!\<close> (\<^verbatim>\<open>ItemAdded\<close>).
\<close>
theorem addToCart_spec:
  "(id' product \<in> id' ` set (cart s) \<longrightarrow>
      (\<exists>i<length (cart s). id' (cart s ! i) = id' product
          \<and> (\<forall>j<i. id' (cart s ! j) \<noteq> id' product)
          \<and> cart (addToCart product s) =
              (cart s)[i := (cart s ! i)\<lparr>quantity := quantity (cart s ! i) + 1\<rparr>])
      \<and> notifications (addToCart product s) = notifications s @ [''Quantity updated in cart!''])
   \<and> (id' product \<notin> id' ` set (cart s) \<longrightarrow>
      cart (addToCart product s) = cart s @
        [\<lparr>id' = id' product, title = title product, price = price product,
          image' = image' product, quantity = 1\<rparr>]
      \<and> notifications (addToCart product s) = notifications s @ [''Added to cart!''])"
proof (intro conjI impI)
  assume "id' product \<in> id' ` set (cart s)"
  then have "\<exists>x\<in>set (cart s). id' x = id' product" by auto
  then obtain i where i: "find_index (\<lambda>item. id' item = id' product) (cart s) = Some i"
    using find_index_present [of "cart s" "\<lambda>item. id' item = id' product"] by blast
  from find_index_Some [OF i] cart_addToCart_existing [OF i]
  show "\<exists>i<length (cart s). id' (cart s ! i) = id' product
          \<and> (\<forall>j<i. id' (cart s ! j) \<noteq> id' product)
          \<and> cart (addToCart product s) =
              (cart s)[i := (cart s ! i)\<lparr>quantity := quantity (cart s ! i) + 1\<rparr>]"
    by blast
  from i show "notifications (addToCart product s) = notifications s @ [''Quantity updated in cart!'']"
    by (simp add: notifications_addToCart)
next
  assume "id' product \<notin> id' ` set (cart s)"
  then have n: "find_index (\<lambda>item. id' item = id' product) (cart s) = None"
    by (force simp: find_index_None)
  from n show "cart (addToCart product s) = cart s @
        [\<lparr>id' = id' product, title = title product, price = price product,
          image' = image' product, quantity = 1\<rparr>]"
    by (rule cart_addToCart_new)
  from n show "notifications (addToCart product s) = notifications s @ [''Added to cart!'']"
    by (simp add: notifications_addToCart)
qed

theorem addToCart_spec_witness:
  "id' product_A \<in> id' ` set (cart (page_of [line_B 1, line_A 1]))
   \<and> cart (addToCart product_A (page_of [line_B 1, line_A 1])) = [line_B 1, line_A 2]
   \<and> notifications (addToCart product_A (page_of [line_B 1, line_A 1])) = [''Quantity updated in cart!'']
   \<and> id' product_B \<notin> id' ` set (cart (page_of [line_A 2]))
   \<and> cart (addToCart product_B (page_of [line_A 2])) = [line_A 2, line_B 1]
   \<and> notifications (addToCart product_B (page_of [line_A 2])) = [''Added to cart!'']"
proof -
  have h1: "id' product_A \<in> id' ` set (cart (page_of [line_B 1, line_A 1]))"
    by (simp add: scene)
  have h2: "id' product_B \<notin> id' ` set (cart (page_of [line_A 2]))"
    by (simp add: scene)
  from addToCart_spec [of product_A "page_of [line_B 1, line_A 1]"] h1
  obtain i where i: "i < length (cart (page_of [line_B 1, line_A 1]))"
      "id' (cart (page_of [line_B 1, line_A 1]) ! i) = id' product_A"
      "cart (addToCart product_A (page_of [line_B 1, line_A 1])) =
         (cart (page_of [line_B 1, line_A 1]))[i := (cart (page_of [line_B 1, line_A 1]) ! i)
            \<lparr>quantity := quantity (cart (page_of [line_B 1, line_A 1]) ! i) + 1\<rparr>]"
    and n1: "notifications (addToCart product_A (page_of [line_B 1, line_A 1])) =
         notifications (page_of [line_B 1, line_A 1]) @ [''Quantity updated in cart!'']"
    by blast
  from i(1,2) have "i = 1"
    by (cases i) (simp_all add: scene)
  with i(3) have c1: "cart (addToCart product_A (page_of [line_B 1, line_A 1])) = [line_B 1, line_A 2]"
    by (simp add: scene)
  from addToCart_spec [of product_B "page_of [line_A 2]"] h2
  have c2: "cart (addToCart product_B (page_of [line_A 2])) = [line_A 2, line_B 1]"
    and n2: "notifications (addToCart product_B (page_of [line_A 2])) = [''Added to cart!'']"
    by (simp_all add: scene)
  from h1 h2 c1 c2 n1 n2 show ?thesis
    by (simp add: page_of_def)
qed

text \<open>
  Claim C3, amended. \<^verbatim>\<open>updateQuantity\<close> on an id that is not in the cart changes nothing at
  all. On an id that is in the cart it looks at the first line with that id: when the old
  quantity plus the change is at most 0 the call is \<^verbatim>\<open>removeFromCart\<close> of that id, lines
  gone and \<^verbatim>\<open>Item removed from cart\<close> shown; when it is positive the line gets the new
  quantity and no notification is shown.
\<close>
theorem updateQuantity_spec:
  "(productId \<notin> id' ` set (cart s) \<longrightarrow> updateQuantity productId change s = s)
   \<and> (productId \<in> id' ` set (cart s) \<longrightarrow>
        (\<exists>i<length (cart s). id' (cart s ! i) = productId
           \<and> (\<forall>j<i. id' (cart s ! j) \<noteq> productId)
           \<and> (if quantity (cart s ! i) + change \<le> 0
                then updateQuantity productId change s = removeFromCart productId s
                   \<and> cart (updateQuantity productId change s) =
                       filter (\<lambda>item. id' item \<noteq> productId) (cart s)
                   \<and> notifications (updateQuantity productId change s) =
                       notifications s @ [''Item removed from cart'']
                else cart (updateQuantity productId change s) =
                       (cart s)[i := (cart s ! i)\<lparr>quantity := quantity (cart s ! i) + change\<rparr>]
                   \<and> notifications (updateQuantity productId change s) = notifications s)))"
proof (intro conjI impI)
  assume "productId \<notin> id' ` set (cart s)"
  then have "find_index (\<lambda>item. id' item = productId) (cart s) = None"
    by (force simp: find_index_None)
  then show "updateQuantity productId change s = s"
    by (rule updateQuantity_absent)
next
  assume "productId \<in> id' ` set (cart s)"
  then have "\<exists>x\<in>set (cart s). id' x = productId" by auto
  then obtain i where i: "find_index (\<lambda>item. id' item = productId) (cart s) = Some i"
    using find_index_present [of "cart s" "\<lambda>item. id' item = productId"] by blast
  note fi = find_index_Some [OF i]
  show "\<exists>i<length (cart s). id' (cart s ! i) = productId
           \<and> (\<forall>j<i. id' (cart s ! j) \<noteq> productId)
           \<and> (if quantity (cart s ! i) + change \<le> 0
                then updateQuantity productId change s = removeFromCart productId s
                   \<and> cart (updateQuantity productId change s) =
                       filter (\<lambda>item. id' item \<noteq> productId) (cart s)
                   \<and> notifications (updateQuantity productId change s) =
                       notifications s @ [''Item removed from cart'']
                else cart (updateQuantity productId change s) =
                       (cart s)[i := (cart s ! i)\<lparr>quantity := quantity (cart s ! i) + change\<rparr>]
                   \<and> notifications (updateQuantity productId change s) = notifications s)"
  proof (cases "quantity (cart s ! i) + change \<le> 0")
    case True
    from updateQuantity_remove [OF i True] fi True show ?thesis
      by (intro exI [of _ i]) simp
  next
    case False
    then have pos: "0 < quantity (cart s ! i) + change" by simp
    from updateQuantity_set [OF i pos] fi False show ?thesis
      by (intro exI [of _ i]) simp
  qed
qed

theorem updateQuantity_spec_witness:
  "3 \<notin> id' ` set (cart (page_of [line_A 2, line_B 1]))
   \<and> updateQuantity 3 1 (page_of [line_A 2, line_B 1]) = page_of [line_A 2, line_B 1]
   \<and> 1 \<in> id' ` set (cart (page_of [line_A 2, line_B 1]))
   \<and> cart (updateQuantity 1 (- 2) (page_of [line_A 2, line_B 1])) = [line_B 1]
   \<and> notifications (updateQuantity 1 (- 2) (page_of [line_A 2, line_B 1])) = [''Item removed from cart'']
   \<and> cart (updateQuantity 1 (- 1) (page_of [line_A 2, line_B 1])) = [line_A 1, line_B 1]
   \<and> notifications (updateQuantity 1 (- 1) (page_of [line_A 2, line_B 1])) = []"
  using updateQuantity_spec [of 3 "page_of [line_A 2, line_B 1]" 1]
    updateQuantity_spec [of 1 "page_of [line_A 2, line_B 1]" "- 2"]
    updateQuantity_spec [of 1 "page_of [line_A 2, line_B 1]" "- 1"]
  by (simp add: scene run)

text \<open>
  Claim C3 as it was stated has the call report \<^verbatim>\<open>QuantityUpdated\<close> when the new quantity
  is positive. On a cart with one line of quantity 1, \<^verbatim>\<open>updateQuantity(1, 1)\<close> makes the
  quantity 2 and shows nothing, where \<^verbatim>\<open>addToCart\<close> on the same cart shows
  \<^verbatim>\<open>Quantity updated in cart!\<close>.
\<close>

theorem updateQuantity_report_counterexample:
  "cart (updateQuantity 1 1 (page_of [line_A 1])) = [line_A 2]
   \<and> notifications (updateQuantity 1 1 (page_of [line_A 1])) = []
   \<and> notifications (addToCart product_A (page_of [line_A 1])) = [''Quantity updated in cart!'']"
  by (simp add: scene run)

text \<open>
  Claim C4, amended. \<^verbatim>\<open>removeFromCart\<close> keeps exactly the lines whose id differs from the
  given one, in their order: no line with that id is left, a cart without the id stays as
  it is, a cart with it becomes shorter. It returns no value and shows the same message,
  \<^verbatim>\<open>Item removed from cart\<close>, in both cases, so nothing it reports tells them apart. It
  has no failing branch.
\<close>
theorem removeFromCart_spec:
  "cart (removeFromCart productId s) = filter (\<lambda>item. id' item \<noteq> productId) (cart s)
   \<and> productId \<notin> id' ` set (cart (removeFromCart productId s))
   \<and> (productId \<notin> id' ` set (cart s) \<longrightarrow> cart (removeFromCart productId s) = cart s)
   \<and> (productId \<in> id' ` set (cart s) \<longrightarrow>
        length (cart (removeFromCart productId s)) < length (cart s))
   \<and> notifications (removeFromCart productId s) = notifications s @ [''Item removed from cart'']"
proof (intro conjI impI)
  show "cart (removeFromCart productId s) = filter (\<lambda>item. id' item \<noteq> productId) (cart s)"
    by simp
  show "productId \<notin> id' ` set (cart (removeFromCart productId s))"
    by auto
  show "notifications (removeFromCart productId s) = notifications s @ [''Item removed from cart'']"
    by simp
next
  assume "productId \<notin> id' ` set (cart s)"
  then have "\<forall>item\<in>set (cart s). id' item \<noteq> productId" by force
  then show "cart (removeFromCart productId s) = cart s"
    by (simp add: filter_id_conv)
next
  assume "productId \<in> id' ` set (cart s)"
  then obtain x where "x \<in> set (cart s)" "\<not> id' x \<noteq> productId" by auto
  then show "length (cart (removeFromCart productId s)) < length (cart s)"
    using length_filter_less [of x "cart s" "\<lambda>item. id' item \<noteq> productId"] by simp
qed

theorem removeFromCart_spec_witness:
  "2 \<notin> id' ` set (cart (page_of [line_A 1]))
   \<and> cart (removeFromCart 2 (page_of [line_A 1])) = [line_A 1]
   \<and> 1 \<in> id' ` set (cart (page_of [line_A 1, line_B 3]))
   \<and> cart (removeFromCart 1 (page_of [line_A 1, line_B 3])) = [line_B 3]
   \<and> length (cart (removeFromCart 1 (page_of [line_A 1, line_B 3]))) < length (cart (page_of [line_A 1, line_B 3]))"
  using removeFromCart_spec [of 2 "page_of [line_A 1]"]
    removeFromCart_spec [of 1 "page_of [line_A 1, line_B 3]"]
  by (simp add: scene)

text \<open>
  Claim C4 as it was stated has the call tell whether a line was removed. On a cart
  without the id the cart stays as it is and the call still shows
  \<^verbatim>\<open>Item removed from cart\<close>, the same as on a cart with the id.
\<close>

theorem removeFromCart_report_counterexample:
  "cart (removeFromCart 2 (page_of [line_A 1])) = cart (page_of [line_A 1])
   \<and> notifications (removeFromCart 2 (page_of [line_A 1])) = [''Item removed from cart'']
   \<and> notifications (removeFromCart 1 (page_of [line_A 1])) = [''Item removed from cart'']"
  by (simp add: scene run)

text \<open>
  Claim C9. When the cart has a line with the product's id, \<^verbatim>\<open>addToCart\<close> keeps the
  length of the cart and every line but one; that line, with the product's id, keeps its
  id, title, price and image, whatever the fields of the incoming product are, and its
  quantity grows by 1.
\<close>
theorem addToCart_frame:
  "id' product \<in> id' ` set (cart s) \<Longrightarrow>
   \<exists>i<length (cart s). id' (cart s ! i) = id' product
     \<and> length (cart (addToCart product s)) = length (cart s)
     \<and> (\<forall>j<length (cart s). j \<noteq> i \<longrightarrow> cart (addToCart product s) ! j = cart s ! j)
     \<and> id' (cart (addToCart product s) ! i) = id' (cart s ! i)
     \<and> title (cart (addToCart product s) ! i) = title (cart s ! i)
     \<and> price (cart (addToCart product s) ! i) = price (cart s ! i)
     \<and> image' (cart (addToCart product s) ! i) = image' (cart s ! i)
     \<and> quantity (cart (addToCart product s) ! i) = quantity (cart s ! i) + 1"
proof -
  assume "id' product \<in> id' ` set (cart s)"
  then have "\<exists>x\<in>set (cart s). id' x = id' product" by auto
  then obtain i where i: "find_index (\<lambda>item. id' item = id' product) (cart s) = Some i"
    using find_index_present [of "cart s" "\<lambda>item. id' item = id' product"] by blast
  from find_index_Some [OF i] cart_addToCart_existing [OF i] show ?thesis
    by (intro exI [of _ i]) simp
qed

theorem addToCart_frame_witness:
  "id' (product_A\<lparr>title := ''renamed'', price := Fin 99\<rparr>) \<in> id' ` set (cart (page_of [line_B 1, line_A 1]))
   \<and> cart (addToCart (product_A\<lparr>title := ''renamed'', price := Fin 99\<rparr>) (page_of [line_B 1, line_A 1]))
       = [line_B 1, line_A 2]"
proof -
  let ?p = "product_A\<lparr>title := ''renamed'', price := Fin 99\<rparr>"
  let ?s = "page_of [line_B 1, line_A 1]"
  have h: "id' ?p \<in> id' ` set (cart ?s)"
    by (simp add: scene)
  from addToCart_frame [OF h] obtain i where i: "i < length (cart ?s)"
      "id' (cart ?s ! i) = id' ?p"
      "length (cart (addToCart ?p ?s)) = length (cart ?s)"
      "\<forall>j<length (cart ?s). j \<noteq> i \<longrightarrow> cart (addToCart ?p ?s) ! j = cart ?s ! j"
      "id' (cart (addToCart ?p ?s) ! i) = id' (cart ?s ! i)"
      "title (cart (addToCart ?p ?s) ! i) = title (cart ?s ! i)"
      "price (cart (addToCart ?p ?s) ! i) = price (cart ?s ! i)"
      "image' (cart (addToCart ?p ?s) ! i) = image' (cart ?s ! i)"
      "quantity (cart (addToCart ?p ?s) ! i) = quantity (cart ?s ! i) + 1"
    by blast
  from i(1,2) have i1: "i = 1"
    by (cases i) (simp_all add: scene)
  from i(4) i1 have "cart (addToCart ?p ?s) ! 0 = line_B 1"
    by (simp add: page_of_def)
  moreover from i(5-9) i1 have "cart (addToCart ?p ?s) ! 1 = line_A 2"
    by (simp add: scene)
  moreover from i(3) have "length (cart (addToCart ?p ?s)) = 2"
    by (simp add: page_of_def)
  ultimately have "cart (addToCart ?p ?s) = [line_B 1, line_A 2]"
    by (simp add: list_eq_iff_nth_eq less_Suc_eq numeral_2_eq_2)
  with h show ?thesis by simp
qed

text \<open>
  Claim C10. When every line of the cart has a quantity of at least 1 and the id is in the
  cart, \<^verbatim>\<open>updateQuantity\<close> with change 0 leaves the cart as it is, and shows nothing.
\<close>
theorem updateQuantity_zero:
  assumes "\<forall>item\<in>set (cart s). 1 \<le> quantity item"
    and "productId \<in> id' ` set (cart s)"
  shows "cart (updateQuantity productId 0 s) = cart s
       \<and> notifications (updateQuantity productId 0 s) = notifications s"
proof -
  from assms(2) have "\<exists>x\<in>set (cart s). id' x = productId" by auto
  then obtain i where i: "find_index (\<lambda>item. id' item = productId) (cart s) = Some i"
    using find_index_present [of "cart s" "\<lambda>item. id' item = productId"] by blast
  from find_index_Some [OF i] have len: "i < length (cart s)" by simp
  with assms(1) have "1 \<le> quantity (cart s ! i)" by simp
  then have pos: "0 < quantity (cart s ! i) + 0" by simp
  have same: "(cart s ! i)\<lparr>quantity := quantity (cart s ! i)\<rparr> = cart s ! i" by simp
  from updateQuantity_set [OF i pos] same show ?thesis by simp
qed

theorem updateQuantity_zero_witness:
  "list_all (\<lambda>item. 1 \<le> quantity item) (cart (page_of [line_A 1, line_B 3]))
   \<and> 2 \<in> id' ` set (cart (page_of [line_A 1, line_B 3]))
   \<and> cart (updateQuantity 2 0 (page_of [line_A 1, line_B 3])) = [line_A 1, line_B 3]"
proof -
  have h1: "\<forall>item\<in>set (cart (page_of [line_A 1, line_B 3])). 1 \<le> quantity item"
    by (simp add: scene)
  have h2: "2 \<in> id' ` set (cart (page_of [line_A 1, line_B 3]))"
    by (simp add: scene)
  from updateQuantity_zero [OF h1 h2] h1 h2 show ?thesis
    by (simp add: page_of_def list_all_iff)
qed

subsection \<open>Totals\<close>

lemma foldl_add_int: "foldl (\<lambda>total item. total + f item) (a::int) xs = a + sum_list (map f xs)"
  by (induction xs arbitrary: a) simp_all

lemma getTotalItems_sum_list: "getTotalItems s = sum_list (map quantity (cart s))"
  using foldl_add_int [of quantity 0 "cart s"] by (simp add: getTotalItems_def)

lemma to_double_representable: "representable q \<Longrightarrow> to_double (Fin q) = Fin q"
  by (simp add: representable_def)



lemma js_add_NaN [simp]: "js_add x NaN = NaN" "js_add NaN y = NaN"
  by (cases "to_double x"; simp add: js_add_def)+

lemma js_mul_NaN [simp]: "js_mul NaN y = NaN"
  by (simp add: js_mul_def)







lemma pow2_pos [simp]: "0 < pow2 k"
  by (simp add: pow2_def)








lemma pow2_nonzero [simp]: "pow2 k \<noteq> 0"
  by (simp add: pow2_def)
























subsection \<open>The invariant\<close>

lemma map_id_update_quantity:
  "i < length c \<Longrightarrow> map id' (c[i := (c ! i)\<lparr>quantity := q\<rparr>]) = map id' c"
  by (simp add: map_update list_update_same_conv)

lemma set_update_quantity:
  "i < length c \<Longrightarrow> x \<in> set (c[i := (c ! i)\<lparr>quantity := q\<rparr>]) \<Longrightarrow>
   x \<in> set c \<or> x = (c ! i)\<lparr>quantity := q\<rparr>"
  by (auto dest: subsetD [OF set_update_subset_insert])

lemma addToCart_invariant:
  assumes "cart_invariant (cart s)"
  shows "cart_invariant (cart (addToCart product s))"
proof (cases "find_index (\<lambda>item. id' item = id' product) (cart s)")
  case None
  then have "\<forall>x\<in>set (cart s). id' x \<noteq> id' product" by (simp add: find_index_None)
  then have "id' product \<notin> id' ` set (cart s)" by auto
  with assms cart_addToCart_new [OF None] show ?thesis
    by (simp add: cart_invariant_def)
next
  case (Some i)
  from find_index_Some [OF Some] have len: "i < length (cart s)" by simp
  with assms have qi: "1 \<le> quantity (cart s ! i)" by (simp add: cart_invariant_def)
  have "\<forall>l\<in>set ((cart s)[i := (cart s ! i)\<lparr>quantity := quantity (cart s ! i) + 1\<rparr>]). 1 \<le> quantity l"
  proof
    fix l assume "l \<in> set ((cart s)[i := (cart s ! i)\<lparr>quantity := quantity (cart s ! i) + 1\<rparr>])"
    from set_update_quantity [OF len this] assms qi show "1 \<le> quantity l"
      by (auto simp: cart_invariant_def)
  qed
  with assms len show ?thesis
    by (simp add: cart_addToCart_existing [OF Some] cart_invariant_def map_id_update_quantity)
qed

lemma removeFromCart_invariant:
  "cart_invariant (cart s) \<Longrightarrow> cart_invariant (cart (removeFromCart productId s))"
  by (simp add: cart_invariant_def distinct_map_filter)

lemma updateQuantity_invariant:
  assumes "cart_invariant (cart s)"
  shows "cart_invariant (cart (updateQuantity productId change s))"
proof (cases "find_index (\<lambda>item. id' item = productId) (cart s)")
  case None
  with assms show ?thesis by (simp add: updateQuantity_absent)
next
  case (Some i)
  from find_index_Some [OF Some] have len: "i < length (cart s)" by simp
  show ?thesis
  proof (cases "quantity (cart s ! i) + change \<le> 0")
    case True
    from updateQuantity_remove [OF Some True] removeFromCart_invariant [OF assms] show ?thesis
      by simp
  next
    case False
    then have pos: "0 < quantity (cart s ! i) + change" by simp
    have "\<forall>l\<in>set ((cart s)[i := (cart s ! i)\<lparr>quantity := quantity (cart s ! i) + change\<rparr>]). 1 \<le> quantity l"
    proof
      fix l assume "l \<in> set ((cart s)[i := (cart s ! i)\<lparr>quantity := quantity (cart s ! i) + change\<rparr>])"
      from set_update_quantity [OF len this] assms pos show "1 \<le> quantity l"
        by (auto simp: cart_invariant_def)
    qed
    with assms len show ?thesis
      by (simp add: updateQuantity_set [OF Some pos] cart_invariant_def map_id_update_quantity)
  qed
qed

text \<open>
  Claim C8. The ids of the lines are pairwise different and every quantity is at least 1:
  each of \<^verbatim>\<open>addToCart\<close>, \<^verbatim>\<open>removeFromCart\<close> and \<^verbatim>\<open>updateQuantity\<close> keeps this true, and
  it holds in every page that these operations reach from an empty cart.
\<close>
theorem cart_invariant_preserved:
  "(cart_invariant (cart s) \<longrightarrow>
      cart_invariant (cart (addToCart product s))
      \<and> cart_invariant (cart (removeFromCart productId s))
      \<and> cart_invariant (cart (updateQuantity productId change s)))
   \<and> (reachable s \<longrightarrow> cart_invariant (cart s))"
proof (intro conjI impI)
  assume "reachable s"
  then show "cart_invariant (cart s)"
  proof (induction rule: reachable.induct)
    case (start s)
    then show ?case by (simp add: cart_invariant_def)
  next
    case (add s product)
    then show ?case by (intro addToCart_invariant)
  next
    case (remove s productId)
    then show ?case by (intro removeFromCart_invariant)
  next
    case (update s productId change)
    then show ?case by (intro updateQuantity_invariant)
  qed
next
  assume inv: "cart_invariant (cart s)"
  show "cart_invariant (cart (addToCart product s))"
    using inv by (rule addToCart_invariant)
  show "cart_invariant (cart (removeFromCart productId s))"
    using inv by (rule removeFromCart_invariant)
  show "cart_invariant (cart (updateQuantity productId change s))"
    using inv by (rule updateQuantity_invariant)
qed

theorem cart_invariant_preserved_witness:
  "cart_invariant (cart (page_of [line_A 1, line_B 3]))
   \<and> cart_invariant (cart (addToCart product_A (page_of [line_A 1, line_B 3])))
   \<and> cart_invariant (cart (removeFromCart 2 (page_of [line_A 1, line_B 3])))
   \<and> cart_invariant (cart (updateQuantity 2 (- 1) (page_of [line_A 1, line_B 3])))
   \<and> reachable (updateQuantity 1 5 (addToCart product_A initial))
   \<and> cart_invariant (cart (updateQuantity 1 5 (addToCart product_A initial)))"
proof -
  have h1: "cart_invariant (cart (page_of [line_A 1, line_B 3]))"
    by (simp add: cart_invariant_def scene)
  have h2: "reachable (updateQuantity 1 5 (addToCart product_A initial))"
    by (intro reachable.intros) (simp add: initial_def)
  from cart_invariant_preserved [of "page_of [line_A 1, line_B 3]" product_A 2 "- 1"] h1
    cart_invariant_preserved [of "updateQuantity 1 5 (addToCart product_A initial)"] h2
  show ?thesis by simp
qed

subsection \<open>Sequences of additions\<close>

lemma sum_list_update_quantity:
  "i < length c \<Longrightarrow>
   (\<Sum>l\<leftarrow>c[i := (c ! i)\<lparr>quantity := quantity (c ! i) + d\<rparr>]. quantity l) = (\<Sum>l\<leftarrow>c. quantity l) + d"
proof (induction c arbitrary: i)
  case Nil
  then show ?case by simp
next
  case (Cons x c)
  then show ?case by (cases i) simp_all
qed

lemma getTotalItems_addToCart: "getTotalItems (addToCart product s) = getTotalItems s + 1"
proof (cases "find_index (\<lambda>item. id' item = id' product) (cart s)")
  case None
  then show ?thesis
    by (simp add: getTotalItems_sum_list cart_addToCart_new)
next
  case (Some i)
  from find_index_Some [OF Some] have "i < length (cart s)" by simp
  then show ?thesis
    by (simp add: getTotalItems_sum_list cart_addToCart_existing [OF Some] sum_list_update_quantity)
qed

lemma ids_addToCart:
  "map id' (cart (addToCart product s)) =
     (if id' product \<in> id' ` set (cart s) then map id' (cart s) else map id' (cart s) @ [id' product])"
proof (cases "find_index (\<lambda>item. id' item = id' product) (cart s)")
  case None
  then have "\<forall>x\<in>set (cart s). id' x \<noteq> id' product" by (simp add: find_index_None)
  then have "id' product \<notin> id' ` set (cart s)" by auto
  then show ?thesis by (simp add: cart_addToCart_new [OF None])
next
  case (Some i)
  from find_index_Some [OF Some] have i: "i < length (cart s)" "id' (cart s ! i) = id' product"
    by simp_all
  then have "id' product \<in> id' ` set (cart s)"
    by (metis imageI nth_mem)
  with i show ?thesis
    by (simp add: cart_addToCart_existing [OF Some] map_id_update_quantity)
qed

lemma getTotalItems_add_all: "getTotalItems (add_all ps s) = getTotalItems s + int (length ps)"
  by (induction ps arbitrary: s) (simp_all add: getTotalItems_addToCart)

lemma ids_add_all:
  "distinct (map id' (cart s)) \<Longrightarrow>
   distinct (map id' (cart (add_all ps s)))
   \<and> set (map id' (cart (add_all ps s))) = set (map id' (cart s)) \<union> set (map id' ps)"
proof (induction ps arbitrary: s)
  case Nil
  then show ?case by simp
next
  case (Cons p ps)
  from Cons.prems have d: "distinct (map id' (cart (addToCart p s)))"
    by (simp add: ids_addToCart)
  have "set (map id' (cart (addToCart p s))) = insert (id' p) (set (map id' (cart s)))"
    by (auto simp: ids_addToCart)
  with Cons.IH [OF d] show ?case by auto
qed

text \<open>
  Claim C6. After a sequence of \<^verbatim>\<open>addToCart\<close> calls on an empty cart, \<^verbatim>\<open>getTotalItems\<close> is
  the number of calls and the cart has one line for each different id of the sequence, so
  as many lines as calls when the ids are pairwise different. On any cart one call raises
  \<^verbatim>\<open>getTotalItems\<close> by 1, and a call with an id that is in the cart keeps the number of
  lines.
\<close>
theorem add_sequence_counts:
  "(cart s = [] \<longrightarrow>
      getTotalItems (add_all ps s) = int (length ps)
      \<and> length (cart (add_all ps s)) = card (id' ` set ps)
      \<and> (distinct (map id' ps) \<longrightarrow> length (cart (add_all ps s)) = length ps))
   \<and> getTotalItems (addToCart product s) = getTotalItems s + 1
   \<and> (id' product \<in> id' ` set (cart s) \<longrightarrow>
        length (cart (addToCart product s)) = length (cart s))"
proof (intro conjI impI)
  show "getTotalItems (addToCart product s) = getTotalItems s + 1"
    by (rule getTotalItems_addToCart)
next
  assume "id' product \<in> id' ` set (cart s)"
  then have "map id' (cart (addToCart product s)) = map id' (cart s)"
    by (simp add: ids_addToCart)
  then show "length (cart (addToCart product s)) = length (cart s)"
    by (rule map_eq_imp_length_eq)
next
  assume e: "cart s = []"
  then have "getTotalItems s = 0"
    by (simp add: getTotalItems_def)
  then show "getTotalItems (add_all ps s) = int (length ps)"
    by (simp add: getTotalItems_add_all)
  from e ids_add_all [of s ps]
  have d: "distinct (map id' (cart (add_all ps s)))"
    and i: "set (map id' (cart (add_all ps s))) = id' ` set ps"
    by simp_all
  from distinct_card [OF d] i
  show len: "length (cart (add_all ps s)) = card (id' ` set ps)"
    by simp
  assume "distinct (map id' ps)"
  from distinct_card [OF this] len
  show "length (cart (add_all ps s)) = length ps"
    by simp
qed

theorem add_sequence_counts_witness:
  "cart initial = []
   \<and> getTotalItems (add_all [product_A, product_B, product_A] initial) = 3
   \<and> length (cart (add_all [product_A, product_B, product_A] initial)) = 2
   \<and> distinct (map id' [product_A, product_B])
   \<and> length (cart (add_all [product_A, product_B] initial)) = 2
   \<and> id' product_A \<in> id' ` set (cart (page_of [line_A 1]))
   \<and> length (cart (addToCart product_A (page_of [line_A 1]))) = length (cart (page_of [line_A 1]))"
proof -
  have h1: "cart initial = []" by (simp add: initial_def)
  have h2: "distinct (map id' [product_A, product_B])" by (simp add: scene)
  have h3: "id' product_A \<in> id' ` set (cart (page_of [line_A 1]))" by (simp add: scene)
  have c: "card (id' ` set [product_A, product_B, product_A]) = 2"
    by (simp add: scene card_insert_if)
  from add_sequence_counts [of initial "[product_A, product_B, product_A]" product_A] h1 c
  have a: "getTotalItems (add_all [product_A, product_B, product_A] initial) = 3"
    and b: "length (cart (add_all [product_A, product_B, product_A] initial)) = 2"
    by simp_all
  from add_sequence_counts [of initial "[product_A, product_B]" product_A] h1 h2
  have d: "length (cart (add_all [product_A, product_B] initial)) = 2"
    by simp
  from add_sequence_counts [of "page_of [line_A 1]" "[]" product_A] h3
  have e: "length (cart (addToCart product_A (page_of [line_A 1]))) = length (cart (page_of [line_A 1]))"
    by simp
  from h1 h2 h3 a b d e show ?thesis by simp
qed

subsection \<open>The recursion bound of the parser\<close>

text \<open>
  Each parser that returns has consumed some of the text, so the recursion is never
  deeper than two calls for a character, and from \<open>2 * length cs + 1\<close> on a larger bound
  gives the same result: the bound of \<open>JSON_parse\<close> cuts no parse short.
\<close>

lemma parsed_cons_Parsed:
  "parsed_cons c p = Parsed (s, r) \<Longrightarrow> \<exists>s'. p = Parsed (s', r)"
  by (auto simp: parsed_cons_def split: parsed.splits)

lemma parse_chars_shorter:
  "parse_chars cs = Parsed (s, r) \<Longrightarrow> length r < length cs"
proof (induction cs arbitrary: s r rule: length_induct)
  case (1 cs)
  show ?case
  proof (cases cs)
    case Nil
    with 1 show ?thesis by simp
  next
    case (Cons c cs')
    note IH = 1(1) [rule_format]
    consider (quote) "c = CHR 0x22"
      | (escape) "c \<noteq> CHR 0x22" "c = CHR 0x5C"
      | (plain) "c \<noteq> CHR 0x22" "c \<noteq> CHR 0x5C"
      by blast
    then show ?thesis
    proof cases
      case quote
      with 1(2) Cons show ?thesis by simp
    next
      case plain
      with 1(2) Cons obtain s' where "parse_chars cs' = Parsed (s', r)"
        by (auto split: if_splits dest: parsed_cons_Parsed)
      from IH [OF _ this] Cons show ?thesis by simp
    next
      case escape
      with 1(2) Cons obtain e cs1 where e: "cs' = e # cs1"
        by (cases cs') auto
      show ?thesis
      proof (cases "e = CHR ''u''")
        case False
        with 1(2) Cons escape e obtain s' where "parse_chars cs1 = Parsed (s', r)"
          by (auto split: option.splits dest: parsed_cons_Parsed)
        from IH [OF _ this] Cons e show ?thesis by simp
      next
        case True
        with 1(2) Cons escape e obtain h1 h2 h3 h4 cs2 where h: "cs1 = h1 # h2 # h3 # h4 # cs2"
          by (auto split: list.splits)
        with 1(2) Cons escape e True obtain s' where "parse_chars cs2 = Parsed (s', r)"
          by (auto split: option.splits if_splits dest: parsed_cons_Parsed)
        from IH [OF _ this] Cons e h show ?thesis by simp
      qed
    qed
  qed
qed

lemma parse_number_shorter:
  assumes a: "parse_number cs = Some (q, r)"
  shows "length r < length cs"
proof -
  define negative where "negative = (cs \<noteq> [] \<and> hd cs = CHR ''-'')"
  define cs1 where "cs1 = (if negative then tl cs else cs)"
  define ds where "ds = takeWhile is_digit cs1"
  define cs2 where "cs2 = dropWhile is_digit cs1"
  define fraction where "fraction = (cs2 \<noteq> [] \<and> hd cs2 = CHR ''.'')"
  define fs where "fs = (if fraction then takeWhile is_digit (tl cs2) else [])"
  define cs3 where "cs3 = (if fraction then dropWhile is_digit (tl cs2) else cs2)"
  define exponent where "exponent = (cs3 \<noteq> [] \<and> (hd cs3 = CHR ''e'' \<or> hd cs3 = CHR ''E''))"
  define cs4 where "cs4 = (if exponent then tl cs3 else cs3)"
  define esign where "esign = (cs4 \<noteq> [] \<and> (hd cs4 = CHR ''+'' \<or> hd cs4 = CHR ''-''))"
  define cs5 where "cs5 = (if exponent \<and> esign then tl cs4 else cs4)"
  define es where "es = (if exponent then takeWhile is_digit cs5 else [])"
  define cs6 where "cs6 = (if exponent then dropWhile is_digit cs5 else cs5)"
  define mantissa :: rat
    where "mantissa = of_nat (digits_value ds) + of_nat (digits_value fs) / 10 ^ length fs"
  define scaled where "scaled = (if exponent \<and> esign \<and> hd cs4 = CHR ''-''
                    then mantissa / 10 ^ digits_value es else mantissa * 10 ^ digits_value es)"
  have unfolded: "parse_number cs =
      (if ds = [] \<or> (1 < length ds \<and> hd ds = CHR ''0'') \<or> (fraction \<and> fs = [])
            \<or> (exponent \<and> es = [])
         then None
         else Some (if negative then - scaled else scaled, cs6))"
    unfolding parse_number_def Let_def negative_def cs1_def ds_def cs2_def fraction_def fs_def
      cs3_def exponent_def cs4_def esign_def cs5_def es_def cs6_def mantissa_def scaled_def
    by (rule refl)
  with a have r: "r = cs6" and ds: "ds \<noteq> []"
    by (auto split: if_splits)
  have l1: "length cs1 \<le> length cs" by (simp add: cs1_def)
  have "length ds + length cs2 = length cs1"
    unfolding ds_def cs2_def by (metis length_append takeWhile_dropWhile_id)
  with ds have l2: "length cs2 < length cs1" by (cases ds) auto
  have "length (dropWhile is_digit (tl cs2)) \<le> length (tl cs2)"
    by (rule length_dropWhile_le)
  also have "\<dots> \<le> length cs2" by simp
  finally have l3: "length cs3 \<le> length cs2"
    by (simp add: cs3_def)
  have l4: "length cs4 \<le> length cs3" by (simp add: cs4_def)
  have l5: "length cs5 \<le> length cs4" by (simp add: cs5_def)
  have l6: "length cs6 \<le> length cs5"
    using length_dropWhile_le [of is_digit cs5] by (simp add: cs6_def)
  from l1 l2 l3 l4 l5 l6 r show ?thesis by simp
qed

lemma length_skip_ws: "length (skip_ws cs) \<le> length cs"
  by (simp add: skip_ws_def length_dropWhile_le)

lemma skip_ws_Cons_shorter: "skip_ws cs = c # r \<Longrightarrow> length r < length cs"
  using length_skip_ws [of cs] by simp

lemma parse_value_Suc_cases:
  assumes "parse_value (Suc n) cs = Parsed (v, r)"
  obtains (empty_array) rr where "skip_ws cs = CHR ''['' # rr" "r = tl (skip_ws rr)" "skip_ws rr \<noteq> []"
    | (array) rr vs where "skip_ws cs = CHR ''['' # rr" "parse_elements n rr = Parsed (vs, r)"
    | (empty_object) rr where "skip_ws cs = CHR ''{'' # rr" "r = tl (skip_ws rr)" "skip_ws rr \<noteq> []"
    | (object) rr kvs where "skip_ws cs = CHR ''{'' # rr" "parse_members n rr = Parsed (kvs, r)"
    | (string) rr s where "skip_ws cs = CHR 0x22 # rr" "parse_chars rr = Parsed (s, r)"
    | (number) q where "parse_number (skip_ws cs) = Some (q, r)"
    | (literal) k where "r = drop k (skip_ws cs)" "0 < k" "k \<le> length (skip_ws cs)"
proof (cases "skip_ws cs")
  case Nil
  with assms show ?thesis by simp
next
  case (Cons c rr)
  consider (a) "c = CHR ''[''" | (b) "c = CHR ''{''" | (c) "c = CHR 0x22"
    | (d) "c \<noteq> CHR ''[''" "c \<noteq> CHR ''{''" "c \<noteq> CHR 0x22" "c = CHR ''-'' \<or> is_digit c"
    | (e) "c \<noteq> CHR ''[''" "c \<noteq> CHR ''{''" "c \<noteq> CHR 0x22" "\<not> (c = CHR ''-'' \<or> is_digit c)"
    by blast
  then show ?thesis
  proof cases
    case a
    with assms Cons show ?thesis
      by (cases "skip_ws rr \<noteq> [] \<and> hd (skip_ws rr) = CHR '']''")
        (auto split: parsed.splits intro: empty_array array)
  next
    case b
    with assms Cons show ?thesis
      by (cases "skip_ws rr \<noteq> [] \<and> hd (skip_ws rr) = CHR ''}''")
        (auto split: parsed.splits intro: empty_object object)
  next
    case c
    with assms Cons show ?thesis
      by (auto split: parsed.splits intro: string)
  next
    case d
    with assms Cons have "\<exists>q. parse_number (c # rr) = Some (q, r)"
      by (auto split: option.splits)
    with Cons show ?thesis by (auto intro: number)
  next
    case e
    have len: "take k xs = ys \<Longrightarrow> length ys = k \<Longrightarrow> k \<le> length xs" for k and xs ys :: string
      by (metis length_take min.cobounded1 min.commute)
    from e assms Cons have
      "(take 4 (c # rr) = ''true'' \<and> r = drop 4 (c # rr))
       \<or> (take 5 (c # rr) = ''false'' \<and> r = drop 5 (c # rr))
       \<or> (take 4 (c # rr) = ''null'' \<and> r = drop 4 (c # rr))"
      by (simp split: if_splits)
    then consider "r = drop 4 (c # rr)" "4 \<le> length (c # rr)"
      | "r = drop 5 (c # rr)" "5 \<le> length (c # rr)"
      using len [of 4 "c # rr" "''true''"] len [of 5 "c # rr" "''false''"] len [of 4 "c # rr" "''null''"]
      by auto
    then show ?thesis
      using Cons by cases (auto intro: literal [of 4] literal [of 5])
  qed
qed

lemma parse_elements_Suc_cases:
  assumes "parse_elements (Suc n) cs = Parsed (vs, r)"
  obtains (last) v r0 where "parse_value n cs = Parsed (v, r0)" "skip_ws r0 = CHR '']'' # r"
    | (more) v r0 r1 vs' where "parse_value n cs = Parsed (v, r0)" "skip_ws r0 = CHR '','' # r1"
        "parse_elements n r1 = Parsed (vs', r)"
proof -
  from assms obtain v r0 where v: "parse_value n cs = Parsed (v, r0)"
    by (auto split: parsed.splits)
  with assms obtain c r1 where c: "skip_ws r0 = c # r1"
    by (cases "skip_ws r0") auto
  show ?thesis
  proof (cases "c = CHR '']''")
    case True
    with assms v c show ?thesis by (auto intro: last)
  next
    case False
    with assms v c show ?thesis
      by (auto split: if_splits parsed.splits intro: more)
  qed
qed

lemma parse_members_Suc_cases:
  assumes "parse_members (Suc n) cs = Parsed (kvs, r)"
  obtains (last) rr k r1 r2 v r3 where "skip_ws cs = CHR 0x22 # rr" "parse_chars rr = Parsed (k, r1)"
        "skip_ws r1 = CHR '':'' # r2" "parse_value n r2 = Parsed (v, r3)" "skip_ws r3 = CHR ''}'' # r"
    | (more) rr k r1 r2 v r3 r4 kvs' where "skip_ws cs = CHR 0x22 # rr" "parse_chars rr = Parsed (k, r1)"
        "skip_ws r1 = CHR '':'' # r2" "parse_value n r2 = Parsed (v, r3)" "skip_ws r3 = CHR '','' # r4"
        "parse_members n r4 = Parsed (kvs', r)"
proof -
  from assms obtain rr where rr: "skip_ws cs = CHR 0x22 # rr"
    by (cases "skip_ws cs") (auto split: if_splits)
  with assms obtain k r1 where k: "parse_chars rr = Parsed (k, r1)"
    by (auto split: parsed.splits)
  with assms rr obtain r2 where r2: "skip_ws r1 = CHR '':'' # r2"
    by (cases "skip_ws r1") (auto split: if_splits)
  with assms rr k obtain v r3 where v: "parse_value n r2 = Parsed (v, r3)"
    by (auto split: parsed.splits)
  with assms rr k r2 obtain d r4 where d: "skip_ws r3 = d # r4"
    by (cases "skip_ws r3") auto
  show ?thesis
  proof (cases "d = CHR ''}''")
    case True
    with assms rr k r2 v d show ?thesis by (auto intro: last)
  next
    case False
    with assms rr k r2 v d show ?thesis
      by (auto split: if_splits parsed.splits intro: more)
  qed
qed

lemma parsers_shorter:
  "(\<forall>cs v r. parse_value n cs = Parsed (v, r) \<longrightarrow> length r < length cs)
   \<and> (\<forall>cs vs r. parse_elements n cs = Parsed (vs, r) \<longrightarrow> length r < length cs)
   \<and> (\<forall>cs kvs r. parse_members n cs = Parsed (kvs, r) \<longrightarrow> length r < length cs)"
proof (induction n)
  case 0
  then show ?case by simp
next
  case (Suc n)
  then have V: "parse_value n cs = Parsed (v, r) \<Longrightarrow> length r < length cs"
    and E: "parse_elements n cs = Parsed (vs, r) \<Longrightarrow> length r < length cs"
    and M: "parse_members n cs = Parsed (kvs, r) \<Longrightarrow> length r < length cs" for cs v vs kvs r
    by blast+
  have "length r < length cs" if "parse_value (Suc n) cs = Parsed (v, r)" for cs v r
    using that
  proof (cases rule: parse_value_Suc_cases)
    case (empty_array rr)
    then have "length r < length (skip_ws rr)" by (cases "skip_ws rr") auto
    with length_skip_ws [of rr] skip_ws_Cons_shorter [OF empty_array(1)] show ?thesis by simp
  next
    case (array rr vs)
    with E [OF array(2)] skip_ws_Cons_shorter [OF array(1)] show ?thesis by simp
  next
    case (empty_object rr)
    then have "length r < length (skip_ws rr)" by (cases "skip_ws rr") auto
    with length_skip_ws [of rr] skip_ws_Cons_shorter [OF empty_object(1)] show ?thesis by simp
  next
    case (object rr kvs)
    with M [OF object(2)] skip_ws_Cons_shorter [OF object(1)] show ?thesis by simp
  next
    case (string rr s)
    with parse_chars_shorter [OF string(2)] skip_ws_Cons_shorter [OF string(1)] show ?thesis by simp
  next
    case (number q)
    with parse_number_shorter [OF number] length_skip_ws [of cs] show ?thesis by simp
  next
    case (literal k)
    with length_skip_ws [of cs] show ?thesis by simp
  qed
  moreover have "length r < length cs" if "parse_elements (Suc n) cs = Parsed (vs, r)" for cs vs r
    using that
  proof (cases rule: parse_elements_Suc_cases)
    case (last v r0)
    with V [OF last(1)] skip_ws_Cons_shorter [OF last(2)] show ?thesis by simp
  next
    case (more v r0 r1 vs')
    with V [OF more(1)] skip_ws_Cons_shorter [OF more(2)] E [OF more(3)] show ?thesis by simp
  qed
  moreover have "length r < length cs" if "parse_members (Suc n) cs = Parsed (kvs, r)" for cs kvs r
    using that
  proof (cases rule: parse_members_Suc_cases)
    case (last rr k r1 r2 v r3)
    with skip_ws_Cons_shorter [OF last(1)] parse_chars_shorter [OF last(2)]
      skip_ws_Cons_shorter [OF last(3)] V [OF last(4)] skip_ws_Cons_shorter [OF last(5)]
    show ?thesis by simp
  next
    case (more rr k r1 r2 v r3 r4 kvs')
    with skip_ws_Cons_shorter [OF more(1)] parse_chars_shorter [OF more(2)]
      skip_ws_Cons_shorter [OF more(3)] V [OF more(4)] skip_ws_Cons_shorter [OF more(5)]
      M [OF more(6)]
    show ?thesis by simp
  qed
  ultimately show ?case by blast
qed

lemma parsers_fuel:
  "(\<forall>cs m. 2 * length cs + 1 \<le> n \<and> n \<le> m \<longrightarrow> parse_value m cs = parse_value n cs)
   \<and> (\<forall>cs m. 2 * length cs + 2 \<le> n \<and> n \<le> m \<longrightarrow> parse_elements m cs = parse_elements n cs)
   \<and> (\<forall>cs m. 2 * length cs + 2 \<le> n \<and> n \<le> m \<longrightarrow> parse_members m cs = parse_members n cs)"
proof (induction n)
  case 0
  then show ?case by simp
next
  case (Suc n)
  then have V: "2 * length cs + 1 \<le> n \<Longrightarrow> n \<le> m \<Longrightarrow> parse_value m cs = parse_value n cs"
    and E: "2 * length cs + 2 \<le> n \<Longrightarrow> n \<le> m \<Longrightarrow> parse_elements m cs = parse_elements n cs"
    and M: "2 * length cs + 2 \<le> n \<Longrightarrow> n \<le> m \<Longrightarrow> parse_members m cs = parse_members n cs"
    for cs m
    by blast+
  note S = parsers_shorter [of n, THEN conjunct1, rule_format]
  have "parse_value m cs = parse_value (Suc n) cs"
    if b: "2 * length cs + 1 \<le> Suc n" and m: "Suc n \<le> m" for cs m
  proof -
    from m obtain m' where m': "m = Suc m'" "n \<le> m'" by (cases m) auto
    show ?thesis
    proof (cases "skip_ws cs")
      case Nil
      then show ?thesis by (simp add: m')
    next
      case (Cons c rr)
      from skip_ws_Cons_shorter [OF Cons] b have "2 * length rr + 2 \<le> n" by simp
      from E [OF this m'(2)] M [OF this m'(2)] Cons show ?thesis by (simp add: m')
    qed
  qed
  moreover have "parse_elements m cs = parse_elements (Suc n) cs"
    if b: "2 * length cs + 2 \<le> Suc n" and m: "Suc n \<le> m" for cs m
  proof -
    from m obtain m' where m': "m = Suc m'" "n \<le> m'" by (cases m) auto
    from b have "2 * length cs + 1 \<le> n" by simp
    from V [OF this m'(2)] have v: "parse_value m' cs = parse_value n cs" .
    show ?thesis
    proof (cases "parse_value n cs")
      case (Parsed x)
      obtain w r0 where x: "x = (w, r0)" by (cases x)
      from S [of cs w r0] Parsed x have s0: "length r0 < length cs" by simp
      show ?thesis
      proof (cases "skip_ws r0")
        case Nil
        with v Parsed x show ?thesis by (simp add: m')
      next
        case (Cons c r1)
        from skip_ws_Cons_shorter [OF Cons] s0 b have "2 * length r1 + 2 \<le> n" by simp
        from E [OF this m'(2)] v Parsed x Cons show ?thesis by (simp add: m')
      qed
    qed (simp_all add: v m')
  qed
  moreover have "parse_members m cs = parse_members (Suc n) cs"
    if b: "2 * length cs + 2 \<le> Suc n" and m: "Suc n \<le> m" for cs m
  proof -
    from m obtain m' where m': "m = Suc m'" "n \<le> m'" by (cases m) auto
    show ?thesis
    proof (cases "skip_ws cs")
      case Nil
      then show ?thesis by (simp add: m')
    next
      case c0: (Cons q rr)
      note s1 = skip_ws_Cons_shorter [OF c0]
      show ?thesis
      proof (cases "parse_chars rr")
        case (Parsed x)
        obtain k r1 where x: "x = (k, r1)" by (cases x)
        from parse_chars_shorter [of rr k r1] Parsed x have s2: "length r1 < length rr" by simp
        show ?thesis
        proof (cases "skip_ws r1")
          case Nil
          with c0 Parsed x show ?thesis by (simp add: m')
        next
          case c1: (Cons c r2)
          note s3 = skip_ws_Cons_shorter [OF c1]
          from s1 s2 s3 b have "2 * length r2 + 1 \<le> n" by simp
          from V [OF this m'(2)] have v: "parse_value m' r2 = parse_value n r2" .
          show ?thesis
          proof (cases "parse_value n r2")
            case p2: (Parsed y)
            obtain w r3 where y: "y = (w, r3)" by (cases y)
            from S [of r2 w r3] p2 y have s4: "length r3 < length r2" by simp
            show ?thesis
            proof (cases "skip_ws r3")
              case Nil
              with c0 Parsed x c1 v p2 y show ?thesis by (simp add: m')
            next
              case c2: (Cons d r4)
              from skip_ws_Cons_shorter [OF c2] s1 s2 s3 s4 b have "2 * length r4 + 2 \<le> n" by simp
              from M [OF this m'(2)] c0 Parsed x c1 v p2 y c2 show ?thesis by (simp add: m')
            qed
          qed (simp_all add: c0 Parsed x c1 v m')
        qed
      qed (simp_all add: c0 m')
    qed
  qed
  ultimately show ?case by blast
qed

lemma parse_value_fuel:
  "2 * length cs + 1 \<le> n \<Longrightarrow> parse_value n cs = parse_value (2 * length cs + 1) cs"
  using parsers_fuel [of "2 * length cs + 1"] by simp

lemma JSON_parse_fuel:
  "2 * length cs + 1 \<le> n \<Longrightarrow>
   JSON_parse cs =
     (case parse_value n cs of
        Parsed (v, r) \<Rightarrow> if skip_ws r = [] then Parsed v else Invalid
      | Invalid \<Rightarrow> Invalid | Outside \<Rightarrow> Outside)"
  using parse_value_fuel [of cs n] parse_value_fuel [of cs "2 * length cs + 2"]
  by (simp add: JSON_parse_def)

subsection \<open>Strings written and read back\<close>

lemma hex_value_hex_digit: "n < 16 \<Longrightarrow> hex_value (hex_digit n) = Some n"
  by (simp add: hex_value_def hex_digit_def Let_def of_char_of [where ?'a = nat] )

lemma parse_chars_escape_char:
  "parse_chars (escape_char c @ cs) = parsed_cons c (parse_chars cs)"
proof -
  let ?n = "of_char c :: nat"
  consider (special) "c \<in> {CHR 0x22, CHR 0x5C, CHR 0x08, CHR 0x09, CHR 0x0A, CHR 0x0C, CHR 0x0D}"
    | (control) "c \<notin> {CHR 0x22, CHR 0x5C, CHR 0x08, CHR 0x09, CHR 0x0A, CHR 0x0C, CHR 0x0D}" "?n < 32"
    | (plain) "c \<notin> {CHR 0x22, CHR 0x5C, CHR 0x08, CHR 0x09, CHR 0x0A, CHR 0x0C, CHR 0x0D}" "\<not> ?n < 32"
    by blast
  then show ?thesis
  proof cases
    case special
    then show ?thesis
      by (auto simp: escape_char_def unescape_def)
  next
    case control
    then have d: "?n div 16 < 16" "?n mod 16 < 16" by simp_all
    have z: "hex_value (CHR ''0'') = Some 0" by (simp add: hex_value_def)
    have "char_of (16 * (?n div 16) + ?n mod 16) = c" by simp
    with control z d show ?thesis
      by (simp add: escape_char_def hex_value_hex_digit)
  next
    case plain
    then show ?thesis
      by (simp add: escape_char_def)
  qed
qed

lemma parse_chars_quoted:
  "parse_chars (concat (map escape_char s) @ CHR 0x22 # rest) = Parsed (s, rest)"
  by (induction s) (simp_all add: parse_chars_escape_char parsed_cons_def)

subsection \<open>Numbers written and read back\<close>

lemma is_digit_char_of: "n < 10 \<Longrightarrow> is_digit (char_of (48 + (n::nat)))"
  by (simp add: is_digit_def of_char_of [where ?'a = nat])

lemma digit_value_char_of: "n < 10 \<Longrightarrow> (of_char (char_of (48 + (n::nat)) :: char) :: nat) - 48 = n"
  by (simp add: of_char_of [where ?'a = nat])

lemma digits_not_Nil [simp]: "digits n \<noteq> []"
  by (subst digits.simps) simp

lemma digits_all_digit: "list_all is_digit (digits n)"
proof (induction n rule: digits.induct)
  case (1 n)
  show ?case
  proof (cases "n < 10")
    case True
    then show ?thesis by (subst digits.simps) (simp add: is_digit_char_of)
  next
    case False
    with 1 show ?thesis by (subst digits.simps) (simp add: is_digit_char_of)
  qed
qed

lemma digits_value_snoc: "digits_value (ds @ [c]) = 10 * digits_value ds + (of_char c - 48)"
  by (simp add: digits_value_def)

lemma digits_value_Nil [simp]: "digits_value [] = 0"
  by (simp add: digits_value_def)

lemma digits_value_append:
  "digits_value (xs @ ys) = digits_value xs * 10 ^ length ys + digits_value ys"
proof (induction ys rule: rev_induct)
  case Nil
  then show ?case by simp
next
  case (snoc y ys)
  have "digits_value (xs @ ys @ [y]) = 10 * digits_value (xs @ ys) + (of_char y - 48)"
    using digits_value_snoc [of "xs @ ys" y] by simp
  with snoc show ?case
    by (simp add: digits_value_snoc algebra_simps)
qed

lemma digits_value_digits: "digits_value (digits n) = n"
proof (induction n rule: digits.induct)
  case (1 n)
  show ?case
  proof (cases "n < 10")
    case True
    then show ?thesis
      using digits_value_snoc [of "[]" "char_of (48 + n)"]
      by (subst digits.simps) (simp add: digit_value_char_of)
  next
    case False
    then have IH: "digits_value (digits (n div 10)) = n div 10" using 1 by simp
    have m: "n mod 10 < 10" by simp
    show ?thesis
      using False IH digit_value_char_of [OF m]
      by (subst digits.simps) (simp add: digits_value_snoc)
  qed
qed

lemma digits_value_zeros: "digits_value (replicate z (CHR ''0'') @ ds) = digits_value ds"
proof -
  have "digits_value (CHR ''0'' # xs) = digits_value xs" for xs
    by (simp add: digits_value_def)
  then show ?thesis by (induction z) simp_all
qed

lemma hd_digits: "0 < n \<Longrightarrow> hd (digits n) \<noteq> CHR ''0''"
proof (induction n rule: digits.induct)
  case (1 n)
  show ?case
  proof (cases "n < 10")
    case True
    have "(char_of (48 + n) :: char) \<noteq> CHR ''0''"
    proof
      assume "(char_of (48 + n) :: char) = CHR ''0''"
      then have "(of_char (char_of (48 + n) :: char) :: nat) = of_char (CHR ''0'')"
        by (rule arg_cong)
      with True 1 show False
        by (simp add: of_char_of [where ?'a = nat])
    qed
    with True show ?thesis by (subst digits.simps) simp
  next
    case False
    then have "0 < n div 10" by simp
    with 1 False have "hd (digits (n div 10)) \<noteq> CHR ''0''" by simp
    with False show ?thesis by (subst digits.simps) simp
  qed
qed

lemma length_digits_gt1: "1 < length (digits n) \<Longrightarrow> 0 < n"
  by (cases "n = 0") (simp_all add: digits.simps [of 0])

lemma takeWhile_digits:
  "list_all is_digit ds \<Longrightarrow> rest = [] \<or> \<not> is_digit (hd rest) \<Longrightarrow>
   takeWhile is_digit (ds @ rest) = ds \<and> dropWhile is_digit (ds @ rest) = rest"
  by (cases rest) (auto simp: list_all_iff takeWhile_append2 dropWhile_append2)

lemma digit_not_special:
  "is_digit c \<Longrightarrow> c \<noteq> CHR ''-'' \<and> c \<noteq> CHR ''.'' \<and> c \<noteq> CHR ''e'' \<and> c \<noteq> CHR ''E''"
  by (auto simp: is_digit_def)

lemma parse_number_shape:
  assumes ip: "list_all is_digit ip" "ip \<noteq> []" "length ip = 1 \<or> hd ip \<noteq> CHR ''0''"
    and fp: "list_all is_digit fp"
    and rest: "ends_number rest"
  shows "parse_number ((if neg then [CHR ''-''] else []) @ ip
            @ (if fp = [] then [] else CHR ''.'' # fp) @ rest) =
         Some ((if neg then - 1 else 1) *
                 (of_nat (digits_value ip) + of_nat (digits_value fp) / 10 ^ length fp), rest)"
proof -
  let ?tail = "(if fp = [] then [] else CHR ''.'' # fp) @ rest"
  let ?cs = "(if neg then [CHR ''-''] else []) @ ip @ ?tail"
  from ip obtain d ds where ipc: "ip = d # ds" and d: "is_digit d"
    by (cases ip) auto
  have neg: "(?cs \<noteq> [] \<and> hd ?cs = CHR ''-'') = neg"
    using d digit_not_special [OF d] by (simp add: ipc)
  have cs1: "(if neg then tl ?cs else ?cs) = ip @ ?tail"
    by simp
  have tail: "?tail = [] \<or> \<not> is_digit (hd ?tail)"
    using rest by (auto simp: ends_number_def is_digit_def)
  from takeWhile_digits [OF ip(1) tail]
  have ds: "takeWhile is_digit (ip @ ?tail) = ip" "dropWhile is_digit (ip @ ?tail) = ?tail"
    by simp_all
  have frac: "(?tail \<noteq> [] \<and> hd ?tail = CHR ''.'') = (fp \<noteq> [])"
    using rest by (auto simp: ends_number_def)
  have rest': "rest = [] \<or> \<not> is_digit (hd rest)"
    using rest by (auto simp: ends_number_def)
  from takeWhile_digits [OF fp rest']
  have fs: "takeWhile is_digit (fp @ rest) = fp" "dropWhile is_digit (fp @ rest) = rest"
    by simp_all
  have fs': "(if fp \<noteq> [] then takeWhile is_digit (tl ?tail) else []) = fp"
    using fs by simp
  have cs3: "(if fp \<noteq> [] then dropWhile is_digit (tl ?tail) else ?tail) = rest"
    using fs by simp
  have expo: "(rest \<noteq> [] \<and> (hd rest = CHR ''e'' \<or> hd rest = CHR ''E'')) = False"
    using rest by (auto simp: ends_number_def)
  have lead: "\<not> (1 < length ip \<and> hd ip = CHR ''0'')"
    using ip(3) by auto
  show ?thesis
    unfolding parse_number_def Let_def neg cs1 ds frac fs' cs3 expo
    using ip(2) lead by simp
qed

lemma decimal_abs:
  assumes "is_decimal q"
  shows "of_nat (nat \<lfloor>\<bar>q\<bar> * 10 ^ decimal_places q\<rfloor>) = \<bar>q\<bar> * 10 ^ decimal_places q"
proof -
  let ?k = "decimal_places q"
  from assms have z: "of_int \<lfloor>q * 10 ^ ?k\<rfloor> = q * 10 ^ ?k"
    by (simp add: is_decimal_def)
  have "\<bar>q\<bar> * 10 ^ ?k = \<bar>q * 10 ^ ?k\<bar>"
    by (simp add: abs_mult)
  also have "\<dots> = \<bar>of_int \<lfloor>q * 10 ^ ?k\<rfloor>\<bar>"
    by (simp only: z)
  also have "\<dots> = of_int \<bar>\<lfloor>q * 10 ^ ?k\<rfloor>\<bar>"
    by simp
  finally have e: "\<bar>q\<bar> * 10 ^ ?k = of_int \<bar>\<lfloor>q * 10 ^ ?k\<rfloor>\<bar>" .
  then have "\<lfloor>\<bar>q\<bar> * 10 ^ ?k\<rfloor> = \<bar>\<lfloor>q * 10 ^ ?k\<rfloor>\<bar>"
    by (simp only: floor_of_int)
  then have "(of_nat (nat \<lfloor>\<bar>q\<bar> * 10 ^ ?k\<rfloor>) :: rat) = of_int \<bar>\<lfloor>q * 10 ^ ?k\<rfloor>\<bar>"
    by simp
  with e show ?thesis by simp
qed

lemma number_text_first:
  "\<exists>c r. number_text q = c # r \<and> (c = CHR ''-'' \<or> is_digit c)"
proof -
  define k where "k = decimal_places q"
  define m where "m = nat \<lfloor>\<bar>q\<bar> * 10 ^ k\<rfloor>"
  define p where "p = replicate (Suc k - length (digits m)) (CHR ''0'') @ digits m"
  have lenp: "Suc k \<le> length p"
    by (simp add: p_def)
  have digp: "list_all is_digit p"
    using digits_all_digit [of m] by (auto simp: p_def list_all_iff is_digit_def)
  from lenp obtain d ds where pc: "p = d # ds" by (cases p) auto
  with digp have d: "is_digit d" by simp
  have body: "\<exists>r. (if k = 0 then p else take (length p - k) p @ [CHR ''.''] @ drop (length p - k) p) = d # r"
    using lenp pc by (cases "length p - k") auto
  then obtain r where r: "(if k = 0 then p else take (length p - k) p @ [CHR ''.''] @ drop (length p - k) p) = d # r" ..
  have "number_text q = (if q < 0 then [CHR ''-''] else []) @
          (if k = 0 then p else take (length p - k) p @ [CHR ''.''] @ drop (length p - k) p)"
    unfolding number_text_def Let_def k_def m_def p_def by simp
  with r have "number_text q = (if q < 0 then [CHR ''-''] else []) @ d # r"
    by simp
  with d show ?thesis by (cases "q < 0") auto
qed

lemma number_text_round_trip:
  assumes dec: "is_decimal q" and rest: "ends_number rest"
  shows "parse_number (number_text q @ rest) = Some (q, rest)"
proof -
  define k where "k = decimal_places q"
  define m where "m = nat \<lfloor>\<bar>q\<bar> * 10 ^ k\<rfloor>"
  define p where "p = replicate (Suc k - length (digits m)) (CHR ''0'') @ digits m"
  define ip where "ip = take (length p - k) p"
  define fp where "fp = drop (length p - k) p"
  have lenp: "Suc k \<le> length p"
    by (simp add: p_def)
  have digp: "list_all is_digit p"
    using digits_all_digit [of m] by (auto simp: p_def list_all_iff is_digit_def)
  have split: "ip @ fp = p"
    by (simp add: ip_def fp_def)
  have dig_ip: "list_all is_digit ip" and dig_fp: "list_all is_digit fp"
    using digp by (auto simp: ip_def fp_def list_all_iff dest: in_set_takeD in_set_dropD)
  have len_fp: "length fp = k"
    using lenp by (simp add: fp_def)
  have len_ip: "length ip = length p - k"
    by (simp add: ip_def)
  have ip_ne: "ip \<noteq> []"
    using lenp len_ip by (cases ip) auto
  have fp_Nil: "fp = [] \<longleftrightarrow> k = 0"
    using len_fp by auto
  have lead: "length ip = 1 \<or> hd ip \<noteq> CHR ''0''"
  proof (cases "length ip = 1")
    case True
    then show ?thesis by simp
  next
    case False
    with ip_ne len_ip have long: "Suc k < length p"
      by (cases ip) auto
    then have "Suc k - length (digits m) = 0"
      by (simp add: p_def)
    then have pd: "p = digits m"
      by (simp add: p_def)
    with long have "1 < length (digits m)" by simp
    then have "0 < m" by (rule length_digits_gt1)
    then have "hd p \<noteq> CHR ''0''"
      using pd by (simp add: hd_digits)
    moreover have "hd ip = hd p"
      using ip_ne split by (cases ip) auto
    ultimately show ?thesis by simp
  qed
  have "number_text q = (if q < 0 then [CHR ''-''] else []) @
          (if k = 0 then p else take (length p - k) p @ [CHR ''.''] @ drop (length p - k) p)"
    unfolding number_text_def Let_def k_def m_def p_def by simp
  also have "(if k = 0 then p else take (length p - k) p @ [CHR ''.''] @ drop (length p - k) p) =
          ip @ (if fp = [] then [] else CHR ''.'' # fp)"
    using fp_Nil by (simp add: ip_def fp_def)
  finally have shape: "number_text q =
      (if q < 0 then [CHR ''-''] else []) @ ip @ (if fp = [] then [] else CHR ''.'' # fp)" .
  have "digits_value p = m"
    by (simp add: p_def digits_value_zeros digits_value_digits)
  with digits_value_append [of ip fp] split len_fp
  have "m = digits_value ip * 10 ^ k + digits_value fp"
    by simp
  then have "(of_nat m :: rat) = of_nat (digits_value ip) * 10 ^ k + of_nat (digits_value fp)"
    by simp
  then have "(of_nat m :: rat) / 10 ^ k = of_nat (digits_value ip) + of_nat (digits_value fp) / 10 ^ k"
    by (simp add: field_simps)
  moreover have "(of_nat m :: rat) = \<bar>q\<bar> * 10 ^ k"
    using decimal_abs [OF dec] by (simp add: m_def k_def)
  ultimately have val: "of_nat (digits_value ip) + of_nat (digits_value fp) / 10 ^ length fp = \<bar>q\<bar>"
    by (simp add: len_fp)
  have "parse_number (number_text q @ rest) =
        Some ((if q < 0 then - 1 else 1) *
                 (of_nat (digits_value ip) + of_nat (digits_value fp) / 10 ^ length fp), rest)"
    using parse_number_shape [OF dig_ip ip_ne lead dig_fp rest, of "q < 0"]
    by (simp add: shape)
  also have "(if q < 0 then - 1 else 1) *
                 (of_nat (digits_value ip) + of_nat (digits_value fp) / 10 ^ length fp) = q"
    unfolding val by simp
  finally show ?thesis .
qed

text \<open>
  \<open>is_decimal\<close>, computed through \<open>decimal_places\<close>, holds of exactly the rationals with a
  finite decimal expansion.
\<close>

lemma least_power_of_ten_bound:
  fixes d :: nat
  assumes "0 < d" "d dvd 10 ^ k" "\<forall>j<k. \<not> d dvd 10 ^ j"
  shows "2 ^ k \<le> d"
  using assms
proof (induction k arbitrary: d)
  case 0
  then show ?case by simp
next
  case (Suc k)
  define g where "g = gcd d 10"
  define d' where "d' = d div g"
  define t where "t = 10 div g"
  have gpos: "0 < g" by (simp add: g_def)
  have d: "d = d' * g" and ten: "10 = t * g"
    by (simp_all add: d'_def t_def g_def)
  have cop: "coprime d' t"
    unfolding d'_def t_def g_def using Suc.prems(1) by (intro div_gcd_coprime) simp
  have g2: "2 \<le> g"
  proof (rule ccontr)
    assume "\<not> 2 \<le> g"
    with gpos have "g = 1" by simp
    then have "coprime d 10" by (simp add: g_def coprime_iff_gcd_eq_1)
    then have "coprime d (10 ^ Suc k)" by (rule coprime_power_right_iff [THEN iffD2, OF disjI1])
    with Suc.prems(2) have "d = 1"
      by (metis coprime_absorb_left is_unit_gcd_iff nat_dvd_1_iff_1 coprime_imp_gcd_eq_1 gcd_nat.absorb_iff1)
    then have "d dvd 10 ^ 0" by simp
    with Suc.prems(3) show False by blast
  qed
  have "d' * g dvd (t * 10 ^ k) * g"
    using Suc.prems(2) d ten by (simp add: mult.assoc mult.left_commute mult.commute)
  with gpos have "d' dvd t * 10 ^ k" by simp
  with cop have dv: "d' dvd 10 ^ k"
    by (simp add: coprime_dvd_mult_right_iff)
  have least: "\<forall>j<k. \<not> d' dvd 10 ^ j"
  proof (intro allI impI notI)
    fix j assume j: "j < k" and "d' dvd 10 ^ j"
    then have "d' * g dvd 10 ^ j * (t * g)"
      by (intro mult_dvd_mono) simp_all
    then have "d dvd 10 ^ j * 10"
      by (simp only: d [symmetric] ten [symmetric])
    then have "d dvd 10 ^ Suc j"
      by (simp add: mult.commute)
    moreover from j have "Suc j < Suc k" by simp
    ultimately show False using Suc.prems(3) by blast
  qed
  have "0 < d'" using Suc.prems(1) d by (cases "d' = 0") simp_all
  from Suc.IH [OF this dv least] have "2 ^ k \<le> d'" .
  from this g2 have "2 ^ k * 2 \<le> d' * g" by (rule mult_le_mono)
  with d show ?case by (simp add: mult.commute)
qed

lemma power_of_ten_below:
  fixes d :: nat
  assumes "0 < d" "d dvd 10 ^ k"
  shows "\<exists>j<d. d dvd 10 ^ j"
proof -
  define j where "j = (LEAST j. d dvd 10 ^ j)"
  from assms(2) have dj: "d dvd 10 ^ j"
    unfolding j_def by (rule LeastI)
  have "\<forall>i<j. \<not> d dvd 10 ^ i"
    unfolding j_def using not_less_Least by blast
  from least_power_of_ten_bound [OF assms(1) dj this] have b: "2 ^ j \<le> d" .
  have "j < 2 ^ j" by (rule less_exp)
  also note b
  finally have "j < d" .
  with dj show ?thesis by blast
qed

lemma decimal_places_dvd:
  assumes "snd (quotient_of q) dvd 10 ^ k"
  shows "snd (quotient_of q) dvd 10 ^ decimal_places q"
proof -
  let ?d = "snd (quotient_of q)"
  have dpos: "0 < ?d"
    by (cases "quotient_of q") (simp add: quotient_of_denom_pos)
  from assms have "nat ?d dvd 10 ^ k"
    using dpos by (metis int_dvd_int_iff nat_0_le of_nat_numeral of_nat_power order_less_imp_le)
  from power_of_ten_below [OF _ this] dpos
  obtain j where j: "j < nat ?d" "nat ?d dvd 10 ^ j" by auto
  then have "?d dvd 10 ^ j"
    using dpos by (metis int_dvd_int_iff nat_0_le of_nat_numeral of_nat_power order_less_imp_le)
  with j(1) have "\<exists>x\<in>set [0..<nat ?d]. ?d dvd 10 ^ x" by auto
  then obtain i where "find (\<lambda>k. ?d dvd 10 ^ k) [0..<nat ?d] = Some i"
    by (cases "find (\<lambda>k. ?d dvd 10 ^ k) [0..<nat ?d]") (auto simp: find_None_iff)
  moreover from this have "?d dvd 10 ^ i"
    by (auto simp: find_Some_iff)
  ultimately show ?thesis
    by (simp add: decimal_places_def Let_def)
qed

lemma is_decimal_iff: "is_decimal q \<longleftrightarrow> (\<exists>k. q * 10 ^ k \<in> \<int>)"
proof
  assume "is_decimal q"
  then have e: "of_int \<lfloor>q * 10 ^ decimal_places q\<rfloor> = q * 10 ^ decimal_places q"
    unfolding is_decimal_def .
  have "(of_int \<lfloor>q * 10 ^ decimal_places q\<rfloor> :: rat) \<in> \<int>"
    by (rule Ints_of_int)
  then have "q * 10 ^ decimal_places q \<in> \<int>"
    by (simp only: e)
  then show "\<exists>k. q * 10 ^ k \<in> \<int>" ..
next
  assume "\<exists>k. q * 10 ^ k \<in> \<int>"
  then obtain k z where z: "q * 10 ^ k = of_int z"
    by (auto elim: Ints_cases)
  obtain n d where nd: "quotient_of q = (n, d)" by (cases "quotient_of q")
  then have dpos: "0 < d" and cop: "coprime n d" and q: "q = of_int n / of_int d"
    by (simp_all add: quotient_of_denom_pos quotient_of_coprime quotient_of_div)
  from z q dpos have "(of_int (n * 10 ^ k) :: rat) = of_int (z * d)"
    by (simp add: field_simps)
  then have "n * 10 ^ k = z * d"
    by (simp only: of_int_eq_iff)
  then have "d dvd n * 10 ^ k" by simp
  with cop have "d dvd 10 ^ k"
    by (simp add: coprime_dvd_mult_right_iff coprime_commute)
  with nd have "d dvd 10 ^ decimal_places q"
    using decimal_places_dvd [of q k] by simp
  then obtain m where m: "10 ^ decimal_places q = d * m" ..
  have "q * 10 ^ decimal_places q = of_int n / of_int d * of_int (10 ^ decimal_places q)"
    by (simp add: q)
  also have "\<dots> = of_int (n * m)"
    using dpos by (simp add: m)
  finally show "is_decimal q"
    by (simp add: is_decimal_def)
qed

subsection \<open>The cart written and read back\<close>

lemma skip_ws_not_ws: "\<not> is_ws c \<Longrightarrow> skip_ws (c # cs) = c # cs"
  by (simp add: skip_ws_def)

lemma ends_number_comma [simp]: "ends_number (CHR '','' # cs)"
  and ends_number_brace [simp]: "ends_number (CHR ''}'' # cs)"
  by (simp_all add: ends_number_def is_digit_def)

lemma parse_value_string:
  "parse_value (Suc n) (quote s @ rest) = Parsed (JStr s, rest)"
  by (simp add: quote_def skip_ws_not_ws is_ws_def parse_chars_quoted)

lemma parse_value_number:
  assumes "is_decimal q" "ends_number rest"
  shows "parse_value (Suc n) (number_text q @ rest) = Parsed (JNum (Fin q), rest)"
proof -
  from number_text_first [of q] obtain c r
    where cr: "number_text q = c # r" and c: "c = CHR ''-'' \<or> is_digit c"
    by blast
  from c have nws: "\<not> is_ws c" and nb: "c \<noteq> CHR ''[''" "c \<noteq> CHR ''{''" "c \<noteq> CHR 0x22"
    by (auto simp: is_ws_def is_digit_def)
  from number_text_round_trip [OF assms] cr
  have "parse_number (c # r @ rest) = Some (q, rest)" by simp
  with c nws nb show ?thesis
    by (simp add: cr skip_ws_not_ws)
qed

lemma parse_members_more:
  assumes "parse_value n (tv @ CHR '','' # after) = Parsed (v, CHR '','' # after)"
    and "parse_members n after = Parsed (kvs, r)"
  shows "parse_members (Suc n) (quote k @ CHR '':'' # tv @ CHR '','' # after) = Parsed ((k, v) # kvs, r)"
  using assms
  by (simp add: quote_def skip_ws_not_ws is_ws_def parse_chars_quoted)

lemma parse_members_last:
  assumes "parse_value n (tv @ CHR ''}'' # rest) = Parsed (v, CHR ''}'' # rest)"
  shows "parse_members (Suc n) (quote k @ CHR '':'' # tv @ CHR ''}'' # rest) = Parsed ([(k, v)], rest)"
  using assms
  by (simp add: quote_def skip_ws_not_ws is_ws_def parse_chars_quoted)

lemma is_decimal_of_int: "is_decimal (of_int n)"
proof -
  have "decimal_places (of_int n) = 0"
    by (simp add: decimal_places_def)
  then show ?thesis by (simp add: is_decimal_def)
qed

lemma parse_value_item:
  assumes "stored_number (price i)"
  shows "parse_value (Suc (Suc (Suc (Suc (Suc (Suc (Suc n))))))) (JSON_stringify (item_value i) @ rest) =
         Parsed (item_value i, rest)"
proof -
  from assms obtain q where q: "price i = Fin q" "is_decimal q"
    by (cases "price i") auto
  have m5: "parse_members (Suc (Suc n))
              (quote ''quantity'' @ CHR '':'' # number_text (of_int (quantity i)) @ CHR ''}'' # rest) =
            Parsed ([(''quantity'', JNum (Fin (of_int (quantity i))))], rest)"
    by (intro parse_members_last parse_value_number is_decimal_of_int) simp
  have m4: "parse_members (Suc (Suc (Suc n)))
              (quote ''image'' @ CHR '':'' # quote (image' i) @ CHR '','' #
               quote ''quantity'' @ CHR '':'' # number_text (of_int (quantity i)) @ CHR ''}'' # rest) =
            Parsed ([(''image'', JStr (image' i)), (''quantity'', JNum (Fin (of_int (quantity i))))], rest)"
    by (intro parse_members_more parse_value_string m5)
  have m3: "parse_members (Suc (Suc (Suc (Suc n))))
              (quote ''price'' @ CHR '':'' # number_text q @ CHR '','' #
               quote ''image'' @ CHR '':'' # quote (image' i) @ CHR '','' #
               quote ''quantity'' @ CHR '':'' # number_text (of_int (quantity i)) @ CHR ''}'' # rest) =
            Parsed ([(''price'', JNum (Fin q)), (''image'', JStr (image' i)),
                     (''quantity'', JNum (Fin (of_int (quantity i))))], rest)"
    by (intro parse_members_more parse_value_number q(2) m4) simp
  have m2: "parse_members (Suc (Suc (Suc (Suc (Suc n)))))
              (quote ''title'' @ CHR '':'' # quote (title i) @ CHR '','' #
               quote ''price'' @ CHR '':'' # number_text q @ CHR '','' #
               quote ''image'' @ CHR '':'' # quote (image' i) @ CHR '','' #
               quote ''quantity'' @ CHR '':'' # number_text (of_int (quantity i)) @ CHR ''}'' # rest) =
            Parsed ([(''title'', JStr (title i)), (''price'', JNum (Fin q)), (''image'', JStr (image' i)),
                     (''quantity'', JNum (Fin (of_int (quantity i))))], rest)"
    by (intro parse_members_more parse_value_string m3)
  have m1: "parse_members (Suc (Suc (Suc (Suc (Suc (Suc n))))))
              (quote ''id'' @ CHR '':'' # number_text (of_int (id' i)) @ CHR '','' #
               quote ''title'' @ CHR '':'' # quote (title i) @ CHR '','' #
               quote ''price'' @ CHR '':'' # number_text q @ CHR '','' #
               quote ''image'' @ CHR '':'' # quote (image' i) @ CHR '','' #
               quote ''quantity'' @ CHR '':'' # number_text (of_int (quantity i)) @ CHR ''}'' # rest) =
            Parsed ([(''id'', JNum (Fin (of_int (id' i)))), (''title'', JStr (title i)),
                     (''price'', JNum (Fin q)), (''image'', JStr (image' i)),
                     (''quantity'', JNum (Fin (of_int (quantity i))))], rest)"
    by (intro parse_members_more parse_value_number is_decimal_of_int m2) simp
  have open_quote: "skip_ws (quote k @ cs) = quote k @ cs" "hd (quote k @ cs) \<noteq> CHR ''}''" for k cs
    by (simp_all add: quote_def skip_ws_not_ws is_ws_def)
  show ?thesis
    using m1 open_quote [of "''id''"]
    by (simp add: item_value_def q(1) skip_ws_not_ws is_ws_def)
qed

lemma parse_elements_last:
  assumes "parse_value n (tv @ CHR '']'' # rest) = Parsed (v, CHR '']'' # rest)"
  shows "parse_elements (Suc n) (tv @ CHR '']'' # rest) = Parsed ([v], rest)"
  using assms by (simp add: skip_ws_not_ws is_ws_def)

lemma parse_elements_more:
  assumes "parse_value n (tv @ CHR '','' # after) = Parsed (v, CHR '','' # after)"
    and "parse_elements n after = Parsed (vs, r)"
  shows "parse_elements (Suc n) (tv @ CHR '','' # after) = Parsed (v # vs, r)"
  using assms by (simp add: skip_ws_not_ws is_ws_def)

lemma parse_elements_cart:
  assumes "c \<noteq> []" "\<forall>i\<in>set c. stored_number (price i)"
  shows "parse_elements (Suc (Suc (Suc (Suc (Suc (Suc (Suc (length c + n))))))))
           (stringify_elements (map item_value c) @ CHR '']'' # rest) =
         Parsed (map item_value c, rest)"
  using assms
proof (induction c)
  case Nil
  then show ?case by simp
next
  case (Cons i c)
  from Cons.prems have i: "stored_number (price i)" by simp
  show ?case
  proof (cases c)
    case Nil
    have "parse_elements (Suc (Suc (Suc (Suc (Suc (Suc (Suc (Suc n))))))))
            (JSON_stringify (item_value i) @ CHR '']'' # rest) = Parsed ([item_value i], rest)"
      by (intro parse_elements_last parse_value_item i)
    with Nil show ?thesis by simp
  next
    case (Cons j c')
    with Cons.prems Cons.IH
    have IH: "parse_elements (Suc (Suc (Suc (Suc (Suc (Suc (Suc (length c + n))))))))
           (stringify_elements (map item_value c) @ CHR '']'' # rest) =
         Parsed (map item_value c, rest)"
      by simp
    have "parse_elements (Suc (Suc (Suc (Suc (Suc (Suc (Suc (Suc (length c + n)))))))))
            (JSON_stringify (item_value i) @ CHR '','' #
               stringify_elements (map item_value c) @ CHR '']'' # rest) =
          Parsed (item_value i # map item_value c, rest)"
      by (intro parse_elements_more parse_value_item i IH)
    with Cons show ?thesis by simp
  qed
qed

lemma JSON_stringify_item_open:
  "\<exists>r. JSON_stringify (item_value i) = CHR ''{'' # r"
  by (simp add: item_value_def)

lemma stringify_elements_open:
  "c \<noteq> [] \<Longrightarrow> \<exists>r. stringify_elements (map item_value c) = CHR ''{'' # r"
proof (cases c)
  case Nil
  assume "c \<noteq> []"
  with Nil show ?thesis by simp
next
  case (Cons i c')
  from JSON_stringify_item_open [of i] obtain r where "JSON_stringify (item_value i) = CHR ''{'' # r" ..
  with Cons show ?thesis by (cases c') simp_all
qed

lemma length_stringify_elements:
  "2 * length c \<le> length (stringify_elements (map item_value c))"
proof (induction c)
  case Nil
  then show ?case by simp
next
  case (Cons i c)
  have "2 \<le> length (JSON_stringify (item_value i))"
    by (simp add: item_value_def)
  with Cons show ?case by (cases c) simp_all
qed

lemma parse_value_cart:
  assumes "\<forall>i\<in>set c. stored_number (price i)"
    and "c = [] \<and> 1 \<le> N \<or> length c + 8 \<le> N"
  shows "parse_value N (JSON_stringify (cart_value c) @ rest) = Parsed (cart_value c, rest)"
proof (cases "c = []")
  case True
  with assms(2) obtain n where "N = Suc n" by (cases N) auto
  with True show ?thesis
    by (simp add: cart_value_def skip_ws_not_ws is_ws_def)
next
  case False
  with assms(2) have "length c + 8 \<le> N" by simp
  then have "N = Suc (Suc (Suc (Suc (Suc (Suc (Suc (Suc (length c + (N - (length c + 8))))))))))"
    by linarith
  then obtain n where N: "N = Suc (Suc (Suc (Suc (Suc (Suc (Suc (Suc (length c + n))))))))" ..
  from stringify_elements_open [OF False] obtain r
    where r: "stringify_elements (map item_value c) = CHR ''{'' # r" ..
  from parse_elements_cart [OF False assms(1), of n rest]
  show ?thesis
    by (simp add: N cart_value_def skip_ws_not_ws is_ws_def r)
qed

lemma JSON_parse_cart:
  assumes "\<forall>i\<in>set c. stored_number (price i)"
  shows "JSON_parse (JSON_stringify (cart_value c)) = Parsed (cart_value c)"
proof -
  let ?text = "JSON_stringify (cart_value c)"
  have len: "length ?text = 2 + length (stringify_elements (map item_value c))"
    by (simp add: cart_value_def)
  with length_stringify_elements [of c]
  have "c = [] \<and> 1 \<le> 2 * length ?text + 2 \<or> length c + 8 \<le> 2 * length ?text + 2"
    by (cases c) simp_all
  from parse_value_cart [OF assms this, of "[]"] show ?thesis
    by (simp add: JSON_parse_def skip_ws_def)
qed

lemma item_of_value_item_value: "item_of_value (item_value i) = Some i"
  by (simp add: item_of_value_def item_value_def integer_of_def string_of_def number_of_def Let_def)

text \<open>
  Claim C7, amended. When every price of the cart is a finite number, \<^verbatim>\<open>saveCart\<close> and
  then \<^verbatim>\<open>loadCart\<close> on a page that has the saved storage (a fresh page is \<open>initial\<close>
  with that storage) returns with the cart that was saved: the same lines with the same
  id, title, price, image and quantity, in the same order.
\<close>
theorem save_load_round_trip:
  assumes "\<forall>i\<in>set (cart s). stored_number (price i)"
  shows "loadCart (t\<lparr>localStorage := localStorage (saveCart s)\<rparr>) =
         Returns (t\<lparr>localStorage := localStorage (saveCart s), cart := cart s\<rparr>)"
proof -
  have ne: "JSON_stringify (cart_value (cart s)) \<noteq> []"
    by (simp add: cart_value_def)
  have again: "map (\<lambda>x. the (item_of_value x)) (map item_value (cart s)) = cart s"
    by (simp add: item_of_value_item_value map_idI)
  have all: "list_all (\<lambda>x. item_of_value x \<noteq> None) (map item_value (cart s))"
    by (simp add: list_all_iff item_of_value_item_value)
  show ?thesis
    using ne again all JSON_parse_cart [OF assms]
    by (simp add: loadCart_def saveCart_def cart_value_def)
qed

theorem save_load_round_trip_witness:
  "list_all (\<lambda>i. stored_number (price i)) (cart (page_of [line_A 2, line_B 1]))
   \<and> loadCart (initial\<lparr>localStorage := localStorage (saveCart (page_of [line_A 2, line_B 1]))\<rparr>) =
       Returns (initial\<lparr>localStorage := localStorage (saveCart (page_of [line_A 2, line_B 1])),
                        cart := [line_A 2, line_B 1]\<rparr>)"
proof -
  have d: "is_decimal 10" "is_decimal (15 / 2)"
    by code_simp+
  then have h: "\<forall>i\<in>set (cart (page_of [line_A 2, line_B 1])). stored_number (price i)"
    by (simp add: scene)
  from save_load_round_trip [OF h, of initial] h show ?thesis
    by (simp add: list_all_iff) (simp add: page_of_def)
qed

text \<open>
  Claim C7 as it was stated speaks of every cart. A product whose price is \<^verbatim>\<open>NaN\<close> (what
  \<^verbatim>\<open>parseFloat\<close> gives for a price text that is no number) makes a line with that
  price; the line is written with the price \<^verbatim>\<open>null\<close>, and reading the text back gives
  \<^verbatim>\<open>null\<close> for the price: not the cart that was saved, and not a cart of this model.
\<close>

theorem save_load_NaN_counterexample:
  "cart (addToCart product_N initial) = [line_N]
   \<and> JSON_parse (JSON_stringify (cart_value [line_N])) =
     Parsed (JArr [JObj [(''id'', JNum (Fin 3)), (''title'', JStr ''C''), (''price'', JNull),
                         (''image'', JStr ''c.png''), (''quantity'', JNum (Fin 1))]])
   \<and> loadCart (initial\<lparr>localStorage := localStorage (saveCart (page_of [line_N]))\<rparr>) = Untyped
   \<and> loadCart (initial\<lparr>localStorage := localStorage (addToCart product_N initial)\<rparr>) = Untyped"
proof -
  have c: "cart (addToCart product_N initial) = [line_N]"
    by (simp add: scene initial_def addToCart_def)
  have p: "JSON_parse (JSON_stringify (cart_value [line_N])) =
     Parsed (JArr [JObj [(''id'', JNum (Fin 3)), (''title'', JStr ''C''), (''price'', JNull),
                         (''image'', JStr ''c.png''), (''quantity'', JNum (Fin 1))]])"
    by code_simp
  have n: "list_all (\<lambda>x. item_of_value x \<noteq> None)
             [JObj [(''id'', JNum (Fin 3)), (''title'', JStr ''C''), (''price'', JNull),
                    (''image'', JStr ''c.png''), (''quantity'', JNum (Fin 1))]] = False"
    by code_simp
  from p n have l: "loadCart (initial\<lparr>localStorage := localStorage (saveCart (page_of [line_N]))\<rparr>) = Untyped"
    by (simp add: loadCart_def saveCart_def page_of_def cart_value_def)
  have "localStorage (addToCart product_N initial) ''vyndetta_cart'' =
        Some (JSON_stringify (cart_value [line_N]))"
    using c by (simp add: addToCart_def Let_def openCart_def saveCart_def split: option.splits)
  with p n have "loadCart (initial\<lparr>localStorage := localStorage (addToCart product_N initial)\<rparr>) = Untyped"
    by (simp add: loadCart_def cart_value_def)
  with c p l show ?thesis by simp
qed

subsection \<open>Loading\<close>

text \<open>
  Claim C1, amended. \<^verbatim>\<open>loadCart\<close> returns and leaves the cart as it is (empty, at page
  load) when nothing or the empty text is stored, and installs the stored cart when the
  text is the JSON text of a cart. When the text is not JSON it does not return: the
  \<^verbatim>\<open>SyntaxError\<close> of \<^verbatim>\<open>JSON.parse\<close> leaves the function; and when the text is JSON for
  something that is not an array, a \<^verbatim>\<open>TypeError\<close> does.
\<close>
theorem loadCart_spec:
  "(localStorage s ''vyndetta_cart'' = None \<or> localStorage s ''vyndetta_cart'' = Some [] \<longrightarrow>
      loadCart s = Returns s)
   \<and> (localStorage s ''vyndetta_cart'' = Some stored \<and> stored \<noteq> [] \<longrightarrow>
        (JSON_parse stored = Invalid \<longrightarrow> loadCart s = Throws SyntaxError)
        \<and> (JSON_parse stored = Parsed (cart_value c) \<longrightarrow> loadCart s = Returns (s\<lparr>cart := c\<rparr>))
        \<and> (JSON_parse stored = Parsed v \<and> (\<forall>vs. v \<noteq> JArr vs) \<longrightarrow> loadCart s = Throws TypeError))"
proof (intro conjI impI)
  assume "localStorage s ''vyndetta_cart'' = None \<or> localStorage s ''vyndetta_cart'' = Some []"
  then show "loadCart s = Returns s"
    by (auto simp: loadCart_def)
next
  assume st: "localStorage s ''vyndetta_cart'' = Some stored \<and> stored \<noteq> []"
  {
    assume "JSON_parse stored = Invalid"
    with st show "loadCart s = Throws SyntaxError"
      by (simp add: loadCart_def)
  next
    assume p: "JSON_parse stored = Parsed (cart_value c)"
    have "map (\<lambda>x. the (item_of_value x)) (map item_value c) = c"
      by (simp add: item_of_value_item_value map_idI)
    moreover have "list_all (\<lambda>x. item_of_value x \<noteq> None) (map item_value c)"
      by (simp add: list_all_iff item_of_value_item_value)
    ultimately show "loadCart s = Returns (s\<lparr>cart := c\<rparr>)"
      using st p by (simp add: loadCart_def cart_value_def)
  next
    assume "JSON_parse stored = Parsed v \<and> (\<forall>vs. v \<noteq> JArr vs)"
    with st show "loadCart s = Throws TypeError"
      by (cases v) (simp_all add: loadCart_def)
  }
qed

theorem loadCart_spec_witness:
  "localStorage initial ''vyndetta_cart'' = None
   \<and> loadCart initial = Returns initial
   \<and> JSON_parse ''undefined'' = Invalid
   \<and> loadCart (initial\<lparr>localStorage := [''vyndetta_cart'' \<mapsto> ''undefined'']\<rparr>) = Throws SyntaxError
   \<and> JSON_parse ''[]'' = Parsed (cart_value [])
   \<and> loadCart (page_of [line_A 1]\<lparr>localStorage := [''vyndetta_cart'' \<mapsto> ''[]'']\<rparr>) =
       Returns (page_of []\<lparr>localStorage := [''vyndetta_cart'' \<mapsto> ''[]'']\<rparr>)
   \<and> JSON_parse ''null'' = Parsed JNull
   \<and> loadCart (initial\<lparr>localStorage := [''vyndetta_cart'' \<mapsto> ''null'']\<rparr>) = Throws TypeError"
proof -
  have h1: "localStorage initial ''vyndetta_cart'' = None"
    by (simp add: initial_def)
  have h2: "JSON_parse ''undefined'' = Invalid"
    by code_simp
  have h3: "JSON_parse ''[]'' = Parsed (cart_value [])"
    by code_simp
  have h4: "JSON_parse ''null'' = Parsed JNull"
    by code_simp
  from loadCart_spec [of initial] h1
  have c1: "loadCart initial = Returns initial"
    by simp
  from loadCart_spec [of "initial\<lparr>localStorage := [''vyndetta_cart'' \<mapsto> ''undefined'']\<rparr>" "''undefined''"] h2
  have c2: "loadCart (initial\<lparr>localStorage := [''vyndetta_cart'' \<mapsto> ''undefined'']\<rparr>) = Throws SyntaxError"
    by simp
  from loadCart_spec [of "page_of [line_A 1]\<lparr>localStorage := [''vyndetta_cart'' \<mapsto> ''[]'']\<rparr>" "''[]''" "[]"] h3
  have c3: "loadCart (page_of [line_A 1]\<lparr>localStorage := [''vyndetta_cart'' \<mapsto> ''[]'']\<rparr>) =
       Returns (page_of []\<lparr>localStorage := [''vyndetta_cart'' \<mapsto> ''[]'']\<rparr>)"
    by (simp add: page_of_def)
  from loadCart_spec [of "initial\<lparr>localStorage := [''vyndetta_cart'' \<mapsto> ''null'']\<rparr>" "''null''" _ JNull] h4
  have c4: "loadCart (initial\<lparr>localStorage := [''vyndetta_cart'' \<mapsto> ''null'']\<rparr>) = Throws TypeError"
    by simp
  from h1 h2 h3 h4 c1 c2 c3 c4 show ?thesis by simp
qed

text \<open>
  Claim C1 as it was stated has \<^verbatim>\<open>loadCart\<close> give an empty cart and never fail when the
  stored text cannot be parsed. With the text \<^verbatim>\<open>{\<close> stored, \<^verbatim>\<open>JSON.parse\<close> throws and so
  does \<^verbatim>\<open>loadCart\<close>.
\<close>

theorem loadCart_malformed_counterexample:
  "JSON_parse ''{'' = Invalid
   \<and> loadCart (initial\<lparr>localStorage := [''vyndetta_cart'' \<mapsto> ''{'']\<rparr>) = Throws SyntaxError"
proof -
  have "JSON_parse ''{'' = Invalid"
    by code_simp
  then show ?thesis
    by (simp add: loadCart_def)
qed

end
